theory Spec2Isabelle
  imports Complex_Main
begin

section \<open>CatRacer: a shallow embedding of \<^verbatim>\<open>cats.py\<close>\<close>

text \<open>
  Python strings are modelled as \<^typ>\<open>string\<close>, Python integers as \<^typ>\<open>int\<close>, and the
  results of Python's true division \<^verbatim>\<open>/\<close> as exact numbers of type \<^typ>\<open>real\<close>: the
  rounding of the floating-point unit is not part of the model. Every exception that
  the code can raise is a value of \<open>error\<close>, and a function that can raise returns
  \<open>error + 'a\<close> with \<open>Inl\<close> for the exception.

  Where the code takes a number from its caller (the elapsed time of \<^verbatim>\<open>wpm\<close>, the
  values of a \<^verbatim>\<open>diff_function\<close>, the limit of \<^verbatim>\<open>autocorrect\<close>, the times of a match),
  the number is an \<^verbatim>\<open>int\<close> or a \<^verbatim>\<open>float\<close>, and a \<^verbatim>\<open>float\<close> can be \<^verbatim>\<open>math.inf\<close>,
  \<^verbatim>\<open>-math.inf\<close> or \<^verbatim>\<open>nan\<close>. Such a number is a value of \<open>number\<close>: a finite value
  \<open>Fin x\<close> or one of the three special values.
\<close>

datatype error = AssertionError | IndexError | ZeroDivisionError | TypeError

datatype number = Fin real | PosInf | NegInf | NaN

text \<open>
  \<open>num_less x y\<close> is Python's \<^verbatim>\<open>x < y\<close> (and \<^verbatim>\<open>y > x\<close>): every comparison with
  \<^verbatim>\<open>nan\<close> is false, nothing is below \<^verbatim>\<open>-math.inf\<close> or above \<^verbatim>\<open>math.inf\<close>, and finite
  values compare as the numbers they are. The equations are read in order.
\<close>

fun num_less :: "number \<Rightarrow> number \<Rightarrow> bool" where
  "num_less NaN y = False"
| "num_less x NaN = False"
| "num_less PosInf y = False"
| "num_less x NegInf = False"
| "num_less NegInf y = True"
| "num_less (Fin x) PosInf = True"
| "num_less (Fin x) (Fin y) = (x < y)"

text \<open>\<open>num_le x y\<close> is Python's \<^verbatim>\<open>x <= y\<close>.\<close>

definition num_le :: "number \<Rightarrow> number \<Rightarrow> bool" where
  "num_le x y = (x \<noteq> NaN \<and> y \<noteq> NaN \<and> \<not> num_less y x)"

text \<open>
  Python's \<^verbatim>\<open>x / y\<close> and \<^verbatim>\<open>x * y\<close> for a finite \<open>x\<close>: division by zero raises, a
  finite number divided by an infinity is zero, and \<^verbatim>\<open>nan\<close> propagates.
\<close>

fun num_div :: "real \<Rightarrow> number \<Rightarrow> error + number" where
  "num_div x (Fin y) = (if y = 0 then Inl ZeroDivisionError else Inr (Fin (x / y)))"
| "num_div x PosInf = Inr (Fin 0)"
| "num_div x NegInf = Inr (Fin 0)"
| "num_div x NaN = Inr NaN"

fun num_mult :: "real \<Rightarrow> number \<Rightarrow> number" where
  "num_mult x (Fin y) = Fin (x * y)"
| "num_mult x PosInf = (if 0 < x then PosInf else if x < 0 then NegInf else NaN)"
| "num_mult x NegInf = (if 0 < x then NegInf else if x < 0 then PosInf else NaN)"
| "num_mult x NaN = NaN"

subsection \<open>Phase 1: accuracy and words per minute\<close>

text \<open>
  Modelled from the spec: \<^verbatim>\<open>utils.split\<close> is imported by \<^verbatim>\<open>cats.py\<close> and is not part
  of the source at hand. The spec calls it a raw whitespace split that keeps case and
  punctuation: the maximal runs of non-whitespace characters, in order.
\<close>

definition is_whitespace :: "char \<Rightarrow> bool" where
  "is_whitespace c =
     (c \<in> {CHR 0x09, CHR 0x0A, CHR 0x0B, CHR 0x0C, CHR 0x0D, CHR 0x1C, CHR 0x1D, CHR 0x1E,
            CHR 0x1F, CHR 0x20, CHR 0x85, CHR 0xA0})"

fun split_from :: "string \<Rightarrow> string \<Rightarrow> string list" where
  "split_from word [] = (if word = [] then [] else [word])"
| "split_from word (c # cs) =
     (if is_whitespace c then (if word = [] then split_from [] cs else word # split_from [] cs)
      else split_from (word @ [c]) cs)"

definition split_str :: "string \<Rightarrow> string list" where
  "split_str s = split_from [] s"

text \<open>The loop of \<^verbatim>\<open>compute_mistyped_words\<close> over \<^verbatim>\<open>range(min(len(..), len(..)))\<close>.\<close>

definition compute_mistyped_words :: "string list \<Rightarrow> string list \<Rightarrow> int" where
  "compute_mistyped_words typed_words source_words =
     fold (\<lambda>i miss_typed_words_cnt.
             if typed_words ! i \<noteq> source_words ! i then miss_typed_words_cnt + 1
             else miss_typed_words_cnt)
       [0 ..< min (length typed_words) (length source_words)] 0"

definition compute_extra_typed_words :: "int \<Rightarrow> int \<Rightarrow> int" where
  "compute_extra_typed_words typed_words_len source_words_len =
     (if typed_words_len > source_words_len then typed_words_len - source_words_len else 0)"

definition compute_accuracy :: "int \<Rightarrow> int \<Rightarrow> int \<Rightarrow> error + real" where
  "compute_accuracy mistyped_words_cnt extra_typed_words_cnt typed_words_len =
     (if typed_words_len = 0 then Inl ZeroDivisionError
      else
        (let correctly_typed_words =
               real_of_int (mistyped_words_cnt + extra_typed_words_cnt) / real_of_int typed_words_len
         in Inr ((1 - correctly_typed_words) * 100)))"

definition accuracy :: "string \<Rightarrow> string \<Rightarrow> error + real" where
  "accuracy typed source =
     (let typed_words = split_str typed;
          source_words = split_str source;
          source_len = int (length source_words);
          typed_len = int (length typed_words)
      in if typed_len = 0 \<and> source_len = 0 then Inr 100
         else if typed_len = 0 \<or> source_len = 0 then Inr 0
         else
           (let extra_typed_words_cnt = compute_extra_typed_words typed_len source_len;
                mistyped_words_cnt = compute_mistyped_words typed_words source_words
            in compute_accuracy mistyped_words_cnt extra_typed_words_cnt typed_len))"

definition wpm :: "string \<Rightarrow> number \<Rightarrow> error + number" where
  "wpm typed elapsed =
     (if \<not> num_less (Fin 0) elapsed then Inl AssertionError
      else
        (case num_div 60 elapsed of
           Inl e \<Rightarrow> Inl e
         | Inr per_second \<Rightarrow> Inr (num_mult (real (length typed) / 5) per_second)))"

subsection \<open>Phase 2: autocorrect and the two difference functions\<close>

text \<open>
  The loop of \<^verbatim>\<open>compute_smallest_diff_and_return_word\<close>; its state is the pair
  \<^verbatim>\<open>(smallest_diff, autocorrect_word)\<close>.
\<close>

fun smallest_diff_loop ::
  "(string \<Rightarrow> string \<Rightarrow> number \<Rightarrow> number) \<Rightarrow> number \<Rightarrow> string \<Rightarrow> string list \<Rightarrow>
     number \<times> string \<Rightarrow> number \<times> string" where
  "smallest_diff_loop diff_function limit typed_word [] (smallest_diff, autocorrect_word) =
     (smallest_diff, autocorrect_word)"
| "smallest_diff_loop diff_function limit typed_word (word # rest) (smallest_diff, autocorrect_word) =
     (let current_diff = diff_function typed_word word limit
      in if num_less current_diff smallest_diff
         then smallest_diff_loop diff_function limit typed_word rest (current_diff, word)
         else smallest_diff_loop diff_function limit typed_word rest (smallest_diff, autocorrect_word))"

definition compute_smallest_diff_and_return_word ::
  "(string \<Rightarrow> string \<Rightarrow> number \<Rightarrow> number) \<Rightarrow> number \<Rightarrow> string \<Rightarrow> string list \<Rightarrow>
     string \<times> number" where
  "compute_smallest_diff_and_return_word diff_function limit typed_word word_list =
     (case smallest_diff_loop diff_function limit typed_word word_list (PosInf, '''') of
        (smallest_diff, autocorrect_word) \<Rightarrow> (autocorrect_word, smallest_diff))"

definition autocorrect ::
  "string \<Rightarrow> string list \<Rightarrow> (string \<Rightarrow> string \<Rightarrow> number \<Rightarrow> number) \<Rightarrow> number \<Rightarrow> string" where
  "autocorrect typed_word word_list diff_function limit =
     (if typed_word \<in> set word_list then typed_word
      else
        (case compute_smallest_diff_and_return_word diff_function limit typed_word word_list of
           (autocorrect_word, smallest_diff) \<Rightarrow>
             if num_less limit smallest_diff then typed_word else autocorrect_word))"

text \<open>
  A difference function for the counterexample of C4: every difference is
  \<^verbatim>\<open>math.inf\<close>.
\<close>

definition inf_diff :: "string \<Rightarrow> string \<Rightarrow> number \<Rightarrow> number" where
  "inf_diff w1 w2 limit = PosInf"

function feline_fixes :: "string \<Rightarrow> string \<Rightarrow> int \<Rightarrow> int" where
  "feline_fixes typed source limit =
     (if limit < 0 then 0
      else if length typed = 0 \<or> length source = 0 then int (length source) + int (length typed)
      else if hd typed = hd source then feline_fixes (tl typed) (tl source) limit
      else 1 + feline_fixes (tl typed) (tl source) (limit - 1))"
  by pat_completeness auto
termination
  by (relation "measure (\<lambda>(typed, source, limit). length typed)") auto

declare feline_fixes.simps [simp del]

function minimum_mewtations :: "string \<Rightarrow> string \<Rightarrow> int \<Rightarrow> int" where
  "minimum_mewtations start goal limit =
     (if limit < 0 then 0
      else if length goal = 0 \<or> length start = 0 then int (length goal) + int (length start)
      else if hd goal = hd start then minimum_mewtations (tl start) (tl goal) limit
      else
        (let add = minimum_mewtations start (tl goal) (limit - 1);
             remove = minimum_mewtations (tl start) goal (limit - 1);
             substitute = minimum_mewtations (tl start) (tl goal) (limit - 1)
         in 1 + min add (min remove substitute)))"
  by pat_completeness auto
termination
  by (relation "measure (\<lambda>(start, goal, limit). length start + length goal)")
    (auto simp: neq_Nil_conv)

declare minimum_mewtations.simps [simp del]

subsection \<open>Phase 3: progress reports\<close>

text \<open>
  The dictionary \<^verbatim>\<open>{'id': user_id, 'progress': progress_ratio}\<close> that is handed to
  \<^verbatim>\<open>upload\<close>; the key \<^verbatim>\<open>'id'\<close> is the field \<open>report_id\<close>.
\<close>

record report =
  report_id :: int
  progress :: real

text \<open>
  The loop of \<^verbatim>\<open>compute_correct_words_till_mistype\<close>: \<open>i\<close> runs over
  \<^verbatim>\<open>range(len(typed))\<close>, reading \<^verbatim>\<open>prompt[i]\<close> raises \<^verbatim>\<open>IndexError\<close> outside of
  \<^verbatim>\<open>prompt\<close>, and the first mismatch breaks out of the loop.
\<close>

function correct_words_loop :: "string list \<Rightarrow> string list \<Rightarrow> nat \<Rightarrow> int \<Rightarrow> error + int" where
  "correct_words_loop prompt typed i typed_correctly_till_mistype =
     (if i < length typed then
        (if \<not> i < length prompt then Inl IndexError
         else if typed ! i = prompt ! i
           then correct_words_loop prompt typed (i + 1) (typed_correctly_till_mistype + 1)
           else Inr typed_correctly_till_mistype)
      else Inr typed_correctly_till_mistype)"
  by pat_completeness auto
termination
  by (relation "measure (\<lambda>(prompt, typed, i, c). length typed - i)") auto

declare correct_words_loop.simps [simp del]

definition compute_correct_words_till_mistype :: "string list \<Rightarrow> string list \<Rightarrow> error + int" where
  "compute_correct_words_till_mistype prompt typed = correct_words_loop prompt typed 0 0"

definition get_progress_ratio :: "int \<Rightarrow> string list \<Rightarrow> error + real" where
  "get_progress_ratio correctly_typed_till_mistype prompt =
     (if length prompt = 0 then Inl ZeroDivisionError
      else Inr (real_of_int correctly_typed_till_mistype / real (length prompt)))"

definition compute_progress_ratio :: "string list \<Rightarrow> string list \<Rightarrow> error + real" where
  "compute_progress_ratio prompt typed =
     (case compute_correct_words_till_mistype prompt typed of
        Inl e \<Rightarrow> Inl e
      | Inr correctly_typed_till_mistype \<Rightarrow> get_progress_ratio correctly_typed_till_mistype prompt)"

text \<open>
  \<^verbatim>\<open>upload\<close> is a callback with an effect on the world outside; the model passes that
  world through: \<open>upload r w\<close> is the world after the report \<open>r\<close> was uploaded in \<open>w\<close>.
\<close>

definition report_progress ::
  "string list \<Rightarrow> string list \<Rightarrow> int \<Rightarrow> (report \<Rightarrow> 'w \<Rightarrow> 'w) \<Rightarrow> 'w \<Rightarrow> error + (real \<times> 'w)" where
  "report_progress typed prompt user_id upload world =
     (case compute_progress_ratio prompt typed of
        Inl e \<Rightarrow> Inl e
      | Inr progress_ratio \<Rightarrow>
          Inr (progress_ratio, upload \<lparr>report_id = user_id, progress = progress_ratio\<rparr> world))"

text \<open>
  Two auxiliary definitions for the proofs: the same scan by recursion over the two
  lists, and the number of leading words of \<open>typed\<close> that equal the word of \<open>prompt\<close>
  at the same position.
\<close>

fun leading_scan :: "string list \<Rightarrow> string list \<Rightarrow> int \<Rightarrow> error + int" where
  "leading_scan [] prompt c = Inr c"
| "leading_scan (t # ts) [] c = Inl IndexError"
| "leading_scan (t # ts) (p # ps) c = (if t = p then leading_scan ts ps (c + 1) else Inr c)"

definition leading_matches :: "'a list \<Rightarrow> 'a list \<Rightarrow> nat" where
  "leading_matches typed prompt = length (takeWhile (\<lambda>(t, p). t = p) (zip typed prompt))"

subsection \<open>Phase 3: matches and fastest words\<close>

text \<open>
  \<^verbatim>\<open>fastest_words\<close> builds its result by appending to lists in place, so lists are
  objects in a store. An address is an index into the store and allocation appends to
  it: every address that is in use is below the length of the store.
\<close>

type_synonym addr = nat

datatype pyobj = StrList "string list" | NumList "number list" | RefList "addr list"

type_synonym heap = "pyobj list"

text \<open>
  Reading a list of a given kind at an address. Python has no dangling references and
  the constructor \<^verbatim>\<open>match\<close> checks the kinds, so the \<open>TypeError\<close> branches are unreachable
  from a well-formed match.
\<close>

definition strs_at :: "heap \<Rightarrow> addr \<Rightarrow> error + string list" where
  "strs_at h a =
     (if a < length h then (case h ! a of StrList ws \<Rightarrow> Inr ws | _ \<Rightarrow> Inl TypeError)
      else Inl TypeError)"

definition nums_at :: "heap \<Rightarrow> addr \<Rightarrow> error + number list" where
  "nums_at h a =
     (if a < length h then (case h ! a of NumList ts \<Rightarrow> Inr ts | _ \<Rightarrow> Inl TypeError)
      else Inl TypeError)"

definition refs_at :: "heap \<Rightarrow> addr \<Rightarrow> error + addr list" where
  "refs_at h a =
     (if a < length h then (case h ! a of RefList rs \<Rightarrow> Inr rs | _ \<Rightarrow> Inl TypeError)
      else Inl TypeError)"

text \<open>
  The dictionary \<^verbatim>\<open>{"words": words, "times": times}\<close>: two references, to the list of
  words and to the list of the players' time lists.
\<close>

record match =
  words_ref :: addr
  times_ref :: addr

definition get_all_words :: "heap \<Rightarrow> match \<Rightarrow> error + string list" where
  "get_all_words h m = strs_at h (words_ref m)"

definition get_all_times :: "heap \<Rightarrow> match \<Rightarrow> error + addr list" where
  "get_all_times h m = refs_at h (times_ref m)"

definition get_word :: "heap \<Rightarrow> match \<Rightarrow> nat \<Rightarrow> error + string" where
  "get_word h m word_index =
     (case strs_at h (words_ref m) of
        Inl e \<Rightarrow> Inl e
      | Inr all_words \<Rightarrow>
          if \<not> (0 \<le> word_index \<and> word_index < length all_words) then Inl AssertionError
          else Inr (all_words ! word_index))"

definition time :: "heap \<Rightarrow> match \<Rightarrow> nat \<Rightarrow> nat \<Rightarrow> error + number" where
  "time h m player_num word_index =
     (case strs_at h (words_ref m) of
        Inl e \<Rightarrow> Inl e
      | Inr all_words \<Rightarrow>
          if \<not> word_index < length all_words then Inl AssertionError
          else
            (case refs_at h (times_ref m) of
               Inl e \<Rightarrow> Inl e
             | Inr all_times \<Rightarrow>
                 if \<not> player_num < length all_times then Inl AssertionError
                 else
                   (case nums_at h (all_times ! player_num) of
                      Inl e \<Rightarrow> Inl e
                    | Inr player_times \<Rightarrow>
                        if \<not> word_index < length player_times then Inl IndexError
                        else Inr (player_times ! word_index))))"

text \<open>
  The loop over \<^verbatim>\<open>range(player_count)\<close> in
  \<^verbatim>\<open>compute_fastest_words_for_each_player\<close>; its state is
  \<^verbatim>\<open>(min_time_per_word_for_player, player, word)\<close>.
\<close>

fun fastest_player_loop ::
  "heap \<Rightarrow> match \<Rightarrow> nat \<Rightarrow> nat list \<Rightarrow> number \<times> nat \<times> string \<Rightarrow>
     error + (number \<times> nat \<times> string)" where
  "fastest_player_loop h m word_index [] (min_time_per_word_for_player, player, word) =
     Inr (min_time_per_word_for_player, player, word)"
| "fastest_player_loop h m word_index (player_index # rest)
       (min_time_per_word_for_player, player, word) =
     (case time h m player_index word_index of
        Inl e \<Rightarrow> Inl e
      | Inr current_word_time \<Rightarrow>
          if num_less current_word_time min_time_per_word_for_player then
            (case get_word h m word_index of
               Inl e \<Rightarrow> Inl e
             | Inr w \<Rightarrow>
                 fastest_player_loop h m word_index rest (current_word_time, player_index, w))
          else
            fastest_player_loop h m word_index rest (min_time_per_word_for_player, player, word))"

text \<open>
  After the loop, \<^verbatim>\<open>fastest_words_per_player[player].append(word)\<close> updates in place the
  list that the entry \<open>player\<close> of the outer list refers to.
\<close>

definition compute_fastest_words_for_each_player ::
  "heap \<Rightarrow> addr \<Rightarrow> match \<Rightarrow> nat \<Rightarrow> nat \<Rightarrow> error + heap" where
  "compute_fastest_words_for_each_player h fastest_words_per_player m player_count word_index =
     (case fastest_player_loop h m word_index [0 ..< player_count] (PosInf, 0, []) of
        Inl e \<Rightarrow> Inl e
      | Inr (min_time_per_word_for_player, player, word) \<Rightarrow>
          (case refs_at h fastest_words_per_player of
             Inl e \<Rightarrow> Inl e
           | Inr player_lists \<Rightarrow>
               if \<not> player < length player_lists then Inl IndexError
               else
                 (case strs_at h (player_lists ! player) of
                    Inl e \<Rightarrow> Inl e
                  | Inr ws \<Rightarrow> Inr (h[player_lists ! player := StrList (ws @ [word])]))))"

text \<open>The loop over \<^verbatim>\<open>range(word_count)\<close> in \<^verbatim>\<open>fastest_words\<close>.\<close>

fun word_loop :: "heap \<Rightarrow> addr \<Rightarrow> match \<Rightarrow> nat \<Rightarrow> nat list \<Rightarrow> error + heap" where
  "word_loop h fastest_words_per_player m player_count [] = Inr h"
| "word_loop h fastest_words_per_player m player_count (word_index # rest) =
     (case compute_fastest_words_for_each_player h fastest_words_per_player m player_count
             word_index of
        Inl e \<Rightarrow> Inl e
      | Inr h' \<Rightarrow> word_loop h' fastest_words_per_player m player_count rest)"

text \<open>
  \<^verbatim>\<open>[[] for _ in range(player_count)]\<close> allocates the outer list and one new empty list
  for each player. The function returns the store it leaves behind and the address of
  the outer list.
\<close>

definition fastest_words :: "heap \<Rightarrow> match \<Rightarrow> error + (heap \<times> addr)" where
  "fastest_words h m =
     (case get_all_times h m of
        Inl e \<Rightarrow> Inl e
      | Inr all_times \<Rightarrow>
          (case get_all_words h m of
             Inl e \<Rightarrow> Inl e
           | Inr all_words \<Rightarrow>
               (let player_count = length all_times;
                    word_count = length all_words;
                    fastest_words_per_player = length h;
                    h1 = h @ [RefList [length h + 1 ..< length h + 1 + player_count]]
                           @ replicate player_count (StrList [])
                in case word_loop h1 fastest_words_per_player m player_count [0 ..< word_count] of
                     Inl e \<Rightarrow> Inl e
                   | Inr h2 \<Rightarrow> Inr (h2, fastest_words_per_player))))"

text \<open>
  A well-formed match, as \<^verbatim>\<open>match(words, times)\<close> builds it: the store \<open>h\<close> holds the
  list \<open>ws\<close> of words and, for each player, a list of numbers with one number for each
  word; \<open>nss\<close> are those lists in the order of the players. The numbers are any that
  \<^verbatim>\<open>isinstance(i, (int, float))\<close> accepts, \<^verbatim>\<open>math.inf\<close> and \<^verbatim>\<open>nan\<close> among them.
\<close>

definition wf_match :: "heap \<Rightarrow> match \<Rightarrow> string list \<Rightarrow> number list list \<Rightarrow> bool" where
  "wf_match h m ws nss =
     (strs_at h (words_ref m) = Inr ws \<and>
      (case refs_at h (times_ref m) of
         Inl e \<Rightarrow> False
       | Inr rs \<Rightarrow> map (nums_at h) rs = map Inr nss) \<and>
      list_all (\<lambda>ns. length ns = length ws) nss)"

text \<open>
  For finite times \<open>tss\<close>, player \<open>p\<close> is the fastest on word \<open>j\<close>: no player has a
  smaller time for that word, and every player before \<open>p\<close> has a greater one.
\<close>

definition is_fastest :: "real list list \<Rightarrow> nat \<Rightarrow> nat \<Rightarrow> bool" where
  "is_fastest tss j p =
     (p < length tss \<and> list_all (\<lambda>q. tss ! p ! j \<le> tss ! q ! j) [0 ..< length tss] \<and>
      list_all (\<lambda>q. tss ! p ! j < tss ! q ! j) [0 ..< p])"

text \<open>The words on which player \<open>p\<close> is the fastest, in the order of the prompt.\<close>

definition words_won :: "string list \<Rightarrow> real list list \<Rightarrow> nat \<Rightarrow> string list" where
  "words_won ws tss p = map (\<lambda>j. ws ! j) (filter (\<lambda>j. is_fastest tss j p) [0 ..< length ws])"

text \<open>
  An auxiliary definition for the proofs: the store \<open>h\<close> followed by the outer list of
  \<open>n\<close> references and the \<open>n\<close> lists \<open>ls\<close> that it refers to, which is the shape of the
  store during the loop of \<^const>\<open>fastest_words\<close>.
\<close>

definition shape :: "heap \<Rightarrow> nat \<Rightarrow> string list list \<Rightarrow> heap" where
  "shape h n ls = h @ [RefList [length h + 1 ..< length h + 1 + n]] @ map StrList ls"

subsection \<open>Edit distance, as the glossary defines it\<close>

text \<open>
  One edit operation inserts, deletes or substitutes a single character at any position
  of a string. (A substitution by the same character counts as an operation too, which
  leaves the least number of operations as it is.)
\<close>

inductive edit_op :: "string \<Rightarrow> string \<Rightarrow> bool" where
  insert_char: "edit_op (xs @ ys) (xs @ c # ys)"
| delete_char: "edit_op (xs @ c # ys) (xs @ ys)"
| substitute_char: "edit_op (xs @ c # ys) (xs @ d # ys)"

text \<open>\<open>edits n s t\<close>: some sequence of exactly \<open>n\<close> edit operations transforms \<open>s\<close> into \<open>t\<close>.\<close>

fun edits :: "nat \<Rightarrow> string \<Rightarrow> string \<Rightarrow> bool" where
  "edits 0 s t = (s = t)"
| "edits (Suc n) s t = (\<exists>u. edit_op s u \<and> edits n u t)"

text \<open>The edit distance is the least number of operations that transforms \<open>s\<close> into \<open>t\<close>.\<close>

definition edit_distance :: "string \<Rightarrow> string \<Rightarrow> nat" where
  "edit_distance s t = (LEAST n. edits n s t)"

text \<open>
  An auxiliary function for the proofs: the recursion of \<^const>\<open>minimum_mewtations\<close> with
  the limit taken away.
\<close>

fun lev :: "string \<Rightarrow> string \<Rightarrow> nat" where
  "lev [] t = length t"
| "lev s [] = length s"
| "lev (a # s) (b # t) =
     (if b = a then lev s t
      else Suc (min (lev (a # s) t) (min (lev s (b # t)) (lev s t))))"

text \<open>
  The number of positions, below the length of the shorter list, at which two lists
  differ.
\<close>

definition mismatches :: "'a list \<Rightarrow> 'a list \<Rightarrow> nat" where
  "mismatches xs ys = card {i. i < min (length xs) (length ys) \<and> xs ! i \<noteq> ys ! i}"

subsection \<open>The recursion of the difference functions, instrumented\<close>

text \<open>
  The three definitions below follow the case analysis of \<^const>\<open>feline_fixes\<close> and
  \<^const>\<open>minimum_mewtations\<close> line by line. The first lists the recursive calls that one
  invocation makes, each tagged as a free move (the first characters match) or as a
  cost branch. The second counts the nested recursive calls below an invocation: an
  invocation that returns without a recursive call has depth 0. The third evaluates
  the function with a budget of nested invocations and returns \<open>None\<close> when the budget
  runs out.
\<close>

datatype branch = Free | Cost

definition feline_fixes_calls :: "string \<Rightarrow> string \<Rightarrow> int \<Rightarrow> (branch \<times> string \<times> string \<times> int) list" where
  "feline_fixes_calls typed source limit =
     (if limit < 0 then []
      else if length typed = 0 \<or> length source = 0 then []
      else if hd typed = hd source then [(Free, tl typed, tl source, limit)]
      else [(Cost, tl typed, tl source, limit - 1)])"

definition minimum_mewtations_calls :: "string \<Rightarrow> string \<Rightarrow> int \<Rightarrow> (branch \<times> string \<times> string \<times> int) list" where
  "minimum_mewtations_calls start goal limit =
     (if limit < 0 then []
      else if length goal = 0 \<or> length start = 0 then []
      else if hd goal = hd start then [(Free, tl start, tl goal, limit)]
      else [(Cost, start, tl goal, limit - 1), (Cost, tl start, goal, limit - 1),
            (Cost, tl start, tl goal, limit - 1)])"

function feline_fixes_depth :: "string \<Rightarrow> string \<Rightarrow> int \<Rightarrow> nat" where
  "feline_fixes_depth typed source limit =
     (if limit < 0 then 0
      else if length typed = 0 \<or> length source = 0 then 0
      else if hd typed = hd source then 1 + feline_fixes_depth (tl typed) (tl source) limit
      else 1 + feline_fixes_depth (tl typed) (tl source) (limit - 1))"
  by pat_completeness auto
termination
  by (relation "measure (\<lambda>(typed, source, limit). length typed)") auto

declare feline_fixes_depth.simps [simp del]

function minimum_mewtations_depth :: "string \<Rightarrow> string \<Rightarrow> int \<Rightarrow> nat" where
  "minimum_mewtations_depth start goal limit =
     (if limit < 0 then 0
      else if length goal = 0 \<or> length start = 0 then 0
      else if hd goal = hd start then 1 + minimum_mewtations_depth (tl start) (tl goal) limit
      else
        (let add = minimum_mewtations_depth start (tl goal) (limit - 1);
             remove = minimum_mewtations_depth (tl start) goal (limit - 1);
             substitute = minimum_mewtations_depth (tl start) (tl goal) (limit - 1)
         in 1 + max add (max remove substitute)))"
  by pat_completeness auto
termination
  by (relation "measure (\<lambda>(start, goal, limit). length start + length goal)")
    (auto simp: neq_Nil_conv)

declare minimum_mewtations_depth.simps [simp del]

fun feline_fixes_fuel :: "nat \<Rightarrow> string \<Rightarrow> string \<Rightarrow> int \<Rightarrow> int option" where
  "feline_fixes_fuel 0 typed source limit = None"
| "feline_fixes_fuel (Suc fuel) typed source limit =
     (if limit < 0 then Some 0
      else if length typed = 0 \<or> length source = 0 then Some (int (length source) + int (length typed))
      else if hd typed = hd source then feline_fixes_fuel fuel (tl typed) (tl source) limit
      else
        (case feline_fixes_fuel fuel (tl typed) (tl source) (limit - 1) of
           None \<Rightarrow> None
         | Some r \<Rightarrow> Some (1 + r)))"

fun minimum_mewtations_fuel :: "nat \<Rightarrow> string \<Rightarrow> string \<Rightarrow> int \<Rightarrow> int option" where
  "minimum_mewtations_fuel 0 start goal limit = None"
| "minimum_mewtations_fuel (Suc fuel) start goal limit =
     (if limit < 0 then Some 0
      else if length goal = 0 \<or> length start = 0 then Some (int (length goal) + int (length start))
      else if hd goal = hd start then minimum_mewtations_fuel fuel (tl start) (tl goal) limit
      else
        (case minimum_mewtations_fuel fuel start (tl goal) (limit - 1) of
           None \<Rightarrow> None
         | Some add \<Rightarrow>
             (case minimum_mewtations_fuel fuel (tl start) goal (limit - 1) of
                None \<Rightarrow> None
              | Some remove \<Rightarrow>
                  (case minimum_mewtations_fuel fuel (tl start) (tl goal) (limit - 1) of
                     None \<Rightarrow> None
                   | Some substitute \<Rightarrow> Some (1 + min add (min remove substitute))))))"

section \<open>The difference functions\<close>

subsection \<open>The unlimited recursion computes the edit distance\<close>

lemma lev_Nil2 [simp]: "lev s [] = length s"
  by (cases s) simp_all

lemma lev_sym: "lev s t = lev t s"
  by (induction s t rule: lev.induct) (auto simp: min.commute min.left_commute)

lemma lev_refl [simp]: "lev s s = 0"
  by (induction s) simp_all

text \<open>One more character in front of either string changes the value by at most one.\<close>

lemma lev_Cons:
  "lev (a # s) t \<le> Suc (lev s t) \<and> lev s t \<le> Suc (lev (a # s) t)"
proof (induction "length s + length t" arbitrary: s t a rule: less_induct)
  case less
  show ?case
  proof (cases t)
    case Nil
    then show ?thesis by simp
  next
    case (Cons b t')
    have swap: "lev (b # t') s \<le> Suc (lev t' s) \<and> lev t' s \<le> Suc (lev (b # t') s)"
      using less [of t' s b] Cons by simp
    then have B_up: "lev s (b # t') \<le> Suc (lev s t')"
      and B_lo: "lev s t' \<le> Suc (lev s (b # t'))"
      by (simp_all add: lev_sym)
    have A: "lev s t' \<le> Suc (lev (a # s) t')"
      using less [of s t' a] Cons by simp
    show ?thesis
    proof (cases "b = a")
      case True
      with B_up B_lo Cons show ?thesis by simp
    next
      case False
      have "lev (a # s) (b # t') \<le> Suc (lev s (b # t'))"
        using False by simp
      moreover have "lev s (b # t') \<le> Suc (lev (a # s) (b # t'))"
        using False B_up A by (simp add: min_def)
      ultimately show ?thesis using Cons by simp
    qed
  qed
qed

lemma lev_Cons_up: "lev (a # s) t \<le> Suc (lev s t)"
  using lev_Cons by blast

lemma lev_Cons_lo: "lev s t \<le> Suc (lev (a # s) t)"
  using lev_Cons by blast

lemma lev_Cons2_lo: "lev s t \<le> Suc (lev s (b # t))"
  using lev_Cons_lo [of t s b] by (simp add: lev_sym)

lemma lev_subst_front: "lev (c # ys) t \<le> Suc (lev (d # ys) t)"
proof (cases t)
  case Nil
  then show ?thesis by simp
next
  case (Cons b t')
  have 1: "lev ys t' \<le> Suc (lev ys (b # t'))" by (rule lev_Cons2_lo)
  have 2: "lev ys t' \<le> Suc (lev (d # ys) t')" by (rule lev_Cons_lo)
  have 3: "lev (c # ys) t' \<le> Suc (lev ys t')" by (rule lev_Cons_up)
  show ?thesis using Cons 1 2 3 by (cases "b = c"; cases "b = d"; simp; linarith)
qed

subsection \<open>Edit operations at the front and below a common first character\<close>

lemma edit_op_Cons: "edit_op s u \<Longrightarrow> edit_op (x # s) (x # u)"
proof (induction rule: edit_op.induct)
  case (insert_char xs ys c)
  show ?case using edit_op.insert_char [of "x # xs" ys c] by simp
next
  case (delete_char xs c ys)
  show ?case using edit_op.delete_char [of "x # xs" c ys] by simp
next
  case (substitute_char xs c ys d)
  show ?case using edit_op.substitute_char [of "x # xs" c ys d] by simp
qed

lemma edit_op_ins_front: "edit_op s (c # s)"
  using edit_op.insert_char [of "[]" s c] by simp

lemma edit_op_del_front: "edit_op (c # s) s"
  using edit_op.delete_char [of "[]" c s] by simp

lemma edit_op_sub_front: "edit_op (c # s) (d # s)"
  using edit_op.substitute_char [of "[]" c s d] by simp

lemma edit_op_front:
  assumes "edit_op s u"
  shows "(\<exists>c. u = c # s) \<or> (\<exists>c. s = c # u) \<or> (\<exists>c d ys. s = c # ys \<and> u = d # ys)
    \<or> (\<exists>x s' u'. s = x # s' \<and> u = x # u' \<and> edit_op s' u')"
  using assms
proof (cases rule: edit_op.cases)
  case (insert_char xs ys c)
  then show ?thesis
    by (cases xs) (auto intro: edit_op.insert_char)
next
  case (delete_char xs c ys)
  then show ?thesis
    by (cases xs) (auto intro: edit_op.delete_char)
next
  case (substitute_char xs c ys d)
  then show ?thesis
    by (cases xs) (auto intro: edit_op.substitute_char)
qed

text \<open>One edit operation on the first string changes the value by at most one.\<close>

lemma lev_edit_op: "edit_op s u \<Longrightarrow> lev s t \<le> Suc (lev u t)"
proof (induction "length s + length t" arbitrary: s u t rule: less_induct)
  case less
  from edit_op_front [OF less.prems]
  consider (ins) c where "u = c # s" | (del) c where "s = c # u"
    | (sub) c d ys where "s = c # ys" "u = d # ys"
    | (deep) x s' u' where "s = x # s'" "u = x # u'" "edit_op s' u'"
    by blast
  then show ?case
  proof cases
    case ins
    then show ?thesis by (simp add: lev_Cons_lo)
  next
    case del
    then show ?thesis by (simp add: lev_Cons_up)
  next
    case sub
    then show ?thesis by (simp add: lev_subst_front)
  next
    case deep
    show ?thesis
    proof (cases t)
      case Nil
      have "length s' \<le> Suc (length u')"
        using less.hyps [of s' "[]" u'] deep by simp
      then show ?thesis using Nil deep by simp
    next
      case (Cons b t')
      have 1: "lev s' t' \<le> Suc (lev u' t')"
        using less.hyps [of s' t' u'] deep Cons by simp
      have 2: "lev s' (b # t') \<le> Suc (lev u' (b # t'))"
        using less.hyps [of s' "b # t'" u'] deep Cons by simp
      have 3: "lev (x # s') t' \<le> Suc (lev (x # u') t')"
        using less.hyps [of "x # s'" t' "x # u'"] deep Cons less.prems by simp
      show ?thesis using 1 2 3 deep Cons by (simp add: min_def)
    qed
  qed
qed

lemma edits_lower: "edits n s t \<Longrightarrow> lev s t \<le> n"
proof (induction n arbitrary: s)
  case 0
  then show ?case by simp
next
  case (Suc n)
  then obtain u where u: "edit_op s u" "edits n u t" by auto
  from Suc.IH [OF u(2)] lev_edit_op [OF u(1), of t] show ?case by simp
qed

lemma edits_Cons: "edits n s t \<Longrightarrow> edits n (x # s) (x # t)"
  by (induction n arbitrary: s) (auto intro: edit_op_Cons)

lemma edits_insert_all: "edits (length t) [] t"
proof (induction t)
  case Nil
  show ?case by simp
next
  case (Cons b t)
  have "edit_op [] [b]" by (rule edit_op_ins_front)
  moreover have "edits (length t) [b] (b # t)" using Cons by (rule edits_Cons)
  ultimately show ?case by auto
qed

lemma edits_delete_all: "edits (length s) s []"
proof (induction s)
  case Nil
  show ?case by simp
next
  case (Cons a s)
  have "edit_op (a # s) s" by (rule edit_op_del_front)
  with Cons show ?case by auto
qed

lemma edits_upper: "edits (lev s t) s t"
proof (induction s t rule: lev.induct)
  case (1 t)
  show ?case by (simp add: edits_insert_all)
next
  case (2 a s)
  show ?case using edits_delete_all [of "a # s"] by simp
next
  case (3 a s b t)
  show ?case
  proof (cases "b = a")
    case True
    with 3 show ?thesis by (simp add: edits_Cons)
  next
    case False
    note IH = 3(2-4) [OF False]
    let ?m = "min (lev (a # s) t) (min (lev s (b # t)) (lev s t))"
    have "\<exists>u. edit_op (a # s) u \<and> edits ?m u (b # t)"
    proof -
      have "?m = lev (a # s) t \<or> ?m = lev s (b # t) \<or> ?m = lev s t"
        by linarith
      then consider "?m = lev (a # s) t" | "?m = lev s (b # t)" | "?m = lev s t"
        by blast
      then show ?thesis
      proof cases
        case 1
        have "edit_op (a # s) (b # a # s)" by (rule edit_op_ins_front)
        moreover have "edits ?m (b # a # s) (b # t)"
          using IH(1) 1 by (simp add: edits_Cons)
        ultimately show ?thesis by blast
      next
        case 2
        have "edit_op (a # s) s" by (rule edit_op_del_front)
        moreover have "edits ?m s (b # t)" using IH(2) 2 by simp
        ultimately show ?thesis by blast
      next
        case 3
        have "edit_op (a # s) (b # s)" by (rule edit_op_sub_front)
        moreover have "edits ?m (b # s) (b # t)"
          using IH(3) 3 by (simp add: edits_Cons)
        ultimately show ?thesis by blast
      qed
    qed
    with False show ?thesis by simp
  qed
qed

lemma edit_distance_lev: "edit_distance s t = lev s t"
  unfolding edit_distance_def
  by (rule Least_equality) (auto intro: edits_upper edits_lower)

subsection \<open>The equations of the two functions on constructors\<close>

lemma mm_neg: "l < 0 \<Longrightarrow> minimum_mewtations s g l = 0"
  by (simp add: minimum_mewtations.simps)

lemma mm_Nil1: "0 \<le> l \<Longrightarrow> minimum_mewtations [] g l = int (length g)"
  by (simp add: minimum_mewtations.simps)

lemma mm_Nil2: "0 \<le> l \<Longrightarrow> minimum_mewtations s [] l = int (length s)"
  by (simp add: minimum_mewtations.simps)

lemma mm_Cons:
  "0 \<le> l \<Longrightarrow> minimum_mewtations (a # s) (b # g) l =
     (if b = a then minimum_mewtations s g l
      else 1 + min (minimum_mewtations (a # s) g (l - 1))
                 (min (minimum_mewtations s (b # g) (l - 1)) (minimum_mewtations s g (l - 1))))"
  by (subst minimum_mewtations.simps) (simp add: Let_def)

subsection \<open>Pruning and the limit\<close>

text \<open>
  With a limit that is not negative, the pruned recursion returns the edit distance when
  that is within the limit, and some value above the limit otherwise.
\<close>

lemma mm_pruned:
  "0 \<le> l \<Longrightarrow>
     (int (lev s g) \<le> l \<longrightarrow> minimum_mewtations s g l = int (lev s g)) \<and>
     (l < int (lev s g) \<longrightarrow> l < minimum_mewtations s g l)"
proof (induction s g arbitrary: l rule: lev.induct)
  case (1 t)
  then show ?case by (simp add: mm_Nil1)
next
  case (2 a s)
  then show ?case by (simp add: mm_Nil2)
next
  case (3 a s b t)
  show ?case
  proof (cases "b = a")
    case True
    with 3 show ?thesis by (simp add: mm_Cons)
  next
    case False
    note IH = 3(2-4) [OF False]
    show ?thesis
    proof (cases "l = 0")
      case True
      then show ?thesis using False by (simp add: mm_Cons mm_neg)
    next
      case l: False
      with 3(5) have l1: "0 \<le> l - 1" by simp
      from IH(1) [OF l1] IH(2) [OF l1] IH(3) [OF l1] False 3(5)
      show ?thesis
        by (simp add: mm_Cons min_def) linarith
    qed
  qed
qed

text \<open>
  C1. When \<^const>\<open>minimum_mewtations\<close> is called with a limit that is not negative and
  returns a value within the limit, that value is the edit distance of the two strings:
  the least number of single-character insertions, deletions and substitutions that
  transforms \<open>start\<close> into \<open>goal\<close>.
\<close>

theorem minimum_mewtations_within_limit_exact:
  "0 \<le> limit \<Longrightarrow> minimum_mewtations start goal limit \<le> limit \<Longrightarrow>
     minimum_mewtations start goal limit = int (edit_distance start goal)"
  using mm_pruned [of limit start goal] by (auto simp: edit_distance_lev)

theorem minimum_mewtations_within_limit_exact_witness:
  "(0::int) \<le> 10 \<and> minimum_mewtations ''cats'' ''scat'' 10 \<le> 10 \<and>
     minimum_mewtations ''cats'' ''scat'' 10 = 2 \<and> edit_distance ''cats'' ''scat'' = 2"
proof -
  have v: "minimum_mewtations ''cats'' ''scat'' 10 = 2" by code_simp
  have "minimum_mewtations ''cats'' ''scat'' 10 = int (edit_distance ''cats'' ''scat'')"
    by (rule minimum_mewtations_within_limit_exact) (simp_all add: v)
  with v show ?thesis by simp
qed

subsection \<open>The two difference functions compared\<close>

lemma ff_neg: "l < 0 \<Longrightarrow> feline_fixes t s l = 0"
  by (simp add: feline_fixes.simps)

lemma ff_Nil1: "0 \<le> l \<Longrightarrow> feline_fixes [] s l = int (length s)"
  by (simp add: feline_fixes.simps)

lemma ff_Nil2: "0 \<le> l \<Longrightarrow> feline_fixes t [] l = int (length t)"
  by (simp add: feline_fixes.simps)

lemma ff_Cons:
  "0 \<le> l \<Longrightarrow> feline_fixes (a # t) (b # s) l =
     (if a = b then feline_fixes t s l else 1 + feline_fixes t s (l - 1))"
  by (subst feline_fixes.simps) simp

lemma mm_le_ff: "minimum_mewtations s g l \<le> feline_fixes s g l"
proof (induction s g arbitrary: l rule: list_induct2')
  case 1
  show ?case by (cases "l < 0") (simp_all add: mm_neg ff_neg mm_Nil1 ff_Nil1)
next
  case (2 a s)
  show ?case by (cases "l < 0") (simp_all add: mm_neg ff_neg mm_Nil2 ff_Nil2)
next
  case (3 b g)
  show ?case by (cases "l < 0") (simp_all add: mm_neg ff_neg mm_Nil1 ff_Nil1)
next
  case (4 a s b g)
  show ?case
  proof (cases "l < 0")
    case True
    then show ?thesis by (simp add: mm_neg ff_neg)
  next
    case False
    then have l: "0 \<le> l" by simp
    show ?thesis using 4 [of l] 4 [of "l - 1"] by (auto simp: mm_Cons [OF l] ff_Cons [OF l])
  qed
qed

text \<open>
  C2. With a limit of at least \<open>len(start) + len(goal)\<close>, large enough that neither
  computation is pruned, \<^const>\<open>minimum_mewtations\<close> returns at most what
  \<^const>\<open>feline_fixes\<close> returns. (The inequality itself needs no assumption on the limit,
  as \<open>mm_le_ff\<close> shows.)
\<close>

theorem minimum_mewtations_le_feline_fixes:
  "int (length start) + int (length goal) \<le> L \<Longrightarrow>
     minimum_mewtations start goal L \<le> feline_fixes start goal L"
  by (rule mm_le_ff)

theorem minimum_mewtations_le_feline_fixes_witness:
  "int (length ''cats'') + int (length ''scat'') \<le> 10 \<and>
     minimum_mewtations ''cats'' ''scat'' 10 \<le> feline_fixes ''cats'' ''scat'' 10 \<and>
     minimum_mewtations ''cats'' ''scat'' 10 = 2 \<and> feline_fixes ''cats'' ''scat'' 10 = 4"
proof -
  have h: "int (length ''cats'') + int (length ''scat'') \<le> 10" by simp
  have m: "minimum_mewtations ''cats'' ''scat'' 10 = 2" by code_simp
  have f: "feline_fixes ''cats'' ''scat'' 10 = 4" by code_simp
  from minimum_mewtations_le_feline_fixes [OF h] h m f show ?thesis by simp
qed

subsection \<open>The substitution-only difference without pruning\<close>

lemma mismatches_Nil [simp]: "mismatches [] ys = 0" "mismatches xs [] = 0"
  by (simp_all add: mismatches_def)

lemma mismatches_Cons [simp]:
  "mismatches (x # xs) (y # ys) = (if x \<noteq> y then 1 else 0) + mismatches xs ys"
proof -
  let ?n = "min (length xs) (length ys)"
  let ?A = "{i. i < ?n \<and> xs ! i \<noteq> ys ! i}"
  let ?B = "{i. i < Suc ?n \<and> (x # xs) ! i \<noteq> (y # ys) ! i}"
  have fin: "finite ?A" by simp
  have B: "?B = (if x \<noteq> y then {0} else {}) \<union> Suc ` ?A"
  proof (rule set_eqI)
    fix i
    show "i \<in> ?B \<longleftrightarrow> i \<in> (if x \<noteq> y then {0} else {}) \<union> Suc ` ?A"
      by (cases i) auto
  qed
  have "card ?B = (if x \<noteq> y then 1 else 0) + card (Suc ` ?A)"
    unfolding B using fin by (auto simp: card_insert_if)
  also have "card (Suc ` ?A) = card ?A"
    by (rule card_image) simp
  finally show ?thesis by (simp add: mismatches_def)
qed

lemma ff_exact:
  "int (min (length t) (length s)) \<le> l \<Longrightarrow>
     feline_fixes t s l = int (mismatches t s) + \<bar>int (length t) - int (length s)\<bar>"
proof (induction t s arbitrary: l rule: list_induct2')
  case 1
  then show ?case by (simp add: ff_Nil1)
next
  case (2 a t)
  then show ?case by (simp add: ff_Nil2)
next
  case (3 b s)
  then show ?case by (simp add: ff_Nil1)
next
  case (4 a t b s)
  from 4(2) have l: "0 \<le> l" by simp
  show ?case
  proof (cases "a = b")
    case True
    with 4(1) [of l] 4(2) show ?thesis by (simp add: ff_Cons [OF l])
  next
    case False
    with 4(1) [of "l - 1"] 4(2) show ?thesis by (simp add: ff_Cons [OF l])
  qed
qed


text \<open>
  C3. With a limit of at least \<open>min(len(typed), len(source))\<close>,
  \<^const>\<open>feline_fixes\<close> returns the number of positions below the shorter length at
  which the two strings differ, plus the absolute difference of the two lengths. The
  witness is the docstring's example \<^verbatim>\<open>feline_fixes("pill", "pillage", 10) == 3\<close>.
\<close>

theorem feline_fixes_counts_mismatches:
  "int (min (length typed) (length source)) \<le> limit \<Longrightarrow>
     feline_fixes typed source limit =
       int (card {i. i < min (length typed) (length source) \<and> typed ! i \<noteq> source ! i})
       + \<bar>int (length typed) - int (length source)\<bar>"
  using ff_exact [of typed source limit] by (simp add: mismatches_def)

theorem feline_fixes_counts_mismatches_witness:
  "int (min (length ''pill'') (length ''pillage'')) \<le> 10 \<and>
     feline_fixes ''pill'' ''pillage'' 10 = 3 \<and>
     int (card {i. i < min (length ''pill'') (length ''pillage'') \<and> ''pill'' ! i \<noteq> ''pillage'' ! i})
       + \<bar>int (length ''pill'') - int (length ''pillage'')\<bar> = 3"
proof -
  have h: "int (min (length ''pill'') (length ''pillage'')) \<le> 10" by simp
  have v: "feline_fixes ''pill'' ''pillage'' 10 = 3" by code_simp
  from feline_fixes_counts_mismatches [OF h] h v show ?thesis by simp
qed

subsection \<open>Termination and recursion depth\<close>

lemma ffd_neg: "l < 0 \<Longrightarrow> feline_fixes_depth t s l = 0"
  by (simp add: feline_fixes_depth.simps)

lemma ffd_Nil: "feline_fixes_depth [] s l = 0" "feline_fixes_depth t [] l = 0"
  by (simp_all add: feline_fixes_depth.simps)

lemma ffd_Cons:
  "0 \<le> l \<Longrightarrow> feline_fixes_depth (a # t) (b # s) l =
     (if a = b then Suc (feline_fixes_depth t s l) else Suc (feline_fixes_depth t s (l - 1)))"
  by (subst feline_fixes_depth.simps) simp

lemma mmd_neg: "l < 0 \<Longrightarrow> minimum_mewtations_depth s g l = 0"
  by (simp add: minimum_mewtations_depth.simps)

lemma mmd_Nil: "minimum_mewtations_depth [] g l = 0" "minimum_mewtations_depth s [] l = 0"
  by (simp_all add: minimum_mewtations_depth.simps)

lemma mmd_Cons:
  "0 \<le> l \<Longrightarrow> minimum_mewtations_depth (a # s) (b # g) l =
     (if b = a then Suc (minimum_mewtations_depth s g l)
      else Suc (max (minimum_mewtations_depth (a # s) g (l - 1))
                 (max (minimum_mewtations_depth s (b # g) (l - 1))
                    (minimum_mewtations_depth s g (l - 1)))))"
  by (subst minimum_mewtations_depth.simps) (simp add: Let_def)

lemma ffd_bound:
  "0 \<le> l \<Longrightarrow> int (feline_fixes_depth t s l) \<le> l + int (min (length t) (length s))"
proof (induction t s arbitrary: l rule: list_induct2')
  case (4 a t b s)
  show ?case
  proof (cases "l = 0")
    case True
    then show ?thesis using 4(1) [of 0] by (simp add: ffd_Cons ffd_neg)
  next
    case False
    with 4(2) have "0 \<le> l - 1" by simp
    from 4(1) [OF this] 4(1) [OF 4(2)] 4(2) show ?thesis by (simp add: ffd_Cons)
  qed
qed (simp_all add: ffd_Nil)

lemma mmd_bound:
  "0 \<le> l \<Longrightarrow> int (minimum_mewtations_depth s g l) \<le> l + int (min (length s) (length g))"
proof (induction s g arbitrary: l rule: lev.induct)
  case (1 t)
  then show ?case by (simp add: mmd_Nil)
next
  case (2 a s)
  then show ?case by (simp add: mmd_Nil)
next
  case (3 a s b g)
  show ?case
  proof (cases "b = a")
    case True
    with 3(1) [OF True 3(5)] 3(5) show ?thesis by (simp add: mmd_Cons)
  next
    case False
    note IH = 3(2-4) [OF False]
    show ?thesis
    proof (cases "l = 0")
      case True
      then show ?thesis using False by (simp add: mmd_Cons mmd_neg)
    next
      case l: False
      with 3(5) have l1: "0 \<le> l - 1" by simp
      from IH(1) [OF l1] IH(2) [OF l1] IH(3) [OF l1] False 3(5)
      show ?thesis by (simp add: mmd_Cons)
    qed
  qed
qed

lemma ff_fuel_depth:
  "feline_fixes_fuel n t s l =
     (if feline_fixes_depth t s l < n then Some (feline_fixes t s l) else None)"
proof (induction n arbitrary: t s l)
  case 0
  show ?case by simp
next
  case (Suc n)
  show ?case
  proof (cases "l < 0")
    case True
    then show ?thesis by (simp add: ffd_neg ff_neg)
  next
    case False
    then have l: "0 \<le> l" by simp
    show ?thesis
    proof (cases t)
      case Nil
      then show ?thesis using l by (simp add: ffd_Nil ff_Nil1)
    next
      case t: (Cons a t')
      show ?thesis
      proof (cases s)
        case Nil
        then show ?thesis using l by (simp add: ffd_Nil ff_Nil2)
      next
        case (Cons b s')
        then show ?thesis using l t Suc [of t' s' l] Suc [of t' s' "l - 1"]
          by (simp add: ffd_Cons ff_Cons)
      qed
    qed
  qed
qed

lemma mm_fuel_depth:
  "minimum_mewtations_fuel n s g l =
     (if minimum_mewtations_depth s g l < n then Some (minimum_mewtations s g l) else None)"
proof (induction n arbitrary: s g l)
  case 0
  show ?case by simp
next
  case (Suc n)
  show ?case
  proof (cases "l < 0")
    case True
    then show ?thesis by (simp add: mmd_neg mm_neg)
  next
    case False
    then have l: "0 \<le> l" by simp
    show ?thesis
    proof (cases s)
      case Nil
      then show ?thesis using l by (simp add: mmd_Nil mm_Nil1)
    next
      case s: (Cons a s')
      show ?thesis
      proof (cases g)
        case Nil
        then show ?thesis using l by (simp add: mmd_Nil mm_Nil2)
      next
        case (Cons b g')
        show ?thesis
        proof (cases "b = a")
          case True
          then show ?thesis using l s Cons Suc [of s' g' l]
            by (simp add: mmd_Cons mm_Cons)
        next
          case False
          then show ?thesis
            using l s Cons Suc [of "a # s'" g' "l - 1"] Suc [of s' "b # g'" "l - 1"]
              Suc [of s' g' "l - 1"]
            by (simp add: mmd_Cons mm_Cons)
        qed
      qed
    qed
  qed
qed

lemma ff_calls_limit:
  "(b, t', s', l') \<in> set (feline_fixes_calls t s l) \<Longrightarrow>
     (b = Cost \<longrightarrow> l' = l - 1) \<and> (b = Free \<longrightarrow> l' = l)"
  by (auto simp: feline_fixes_calls_def split: if_splits)

lemma mm_calls_limit:
  "(b, s', g', l') \<in> set (minimum_mewtations_calls s g l) \<Longrightarrow>
     (b = Cost \<longrightarrow> l' = l - 1) \<and> (b = Free \<longrightarrow> l' = l)"
  by (auto simp: minimum_mewtations_calls_def split: if_splits)


text \<open>
  C8, as stated, fails for a negative limit: the call returns at once, with no
  recursive call at all, while the claimed bound \<open>limit + max(len(start), len(goal))\<close>
  is negative.
\<close>

theorem depth_bound_negative_limit_counterexample:
  "\<not> int (minimum_mewtations_depth [] [] (- 1)) \<le> - 1 + int (max (length ([]::string)) (length ([]::string)))"
  by (simp add: mmd_neg)

text \<open>
  C8, amended. For all strings and every integer limit both recursions terminate:
  evaluated with a budget of nested invocations they return the function's value exactly
  when the budget exceeds the recursion depth. Every recursive call on a cost branch is
  made with \<open>limit - 1\<close> and every recursive call on a free match with the same limit.
  The recursion depth, counted as the number of nested recursive calls below the
  top-level call, is at most \<open>max(0, limit + max(len(start), len(goal)))\<close>.
\<close>

theorem recursion_terminates_with_bounded_depth:
  "feline_fixes_fuel n typed source limit =
     (if feline_fixes_depth typed source limit < n then Some (feline_fixes typed source limit)
      else None) \<and>
   minimum_mewtations_fuel n start goal limit =
     (if minimum_mewtations_depth start goal limit < n
      then Some (minimum_mewtations start goal limit) else None) \<and>
   (\<forall>(b, t', s', l') \<in> set (feline_fixes_calls typed source limit).
      (b = Cost \<longrightarrow> l' = limit - 1 \<and> l' < limit) \<and> (b = Free \<longrightarrow> l' = limit)) \<and>
   (\<forall>(b, s', g', l') \<in> set (minimum_mewtations_calls start goal limit).
      (b = Cost \<longrightarrow> l' = limit - 1 \<and> l' < limit) \<and> (b = Free \<longrightarrow> l' = limit)) \<and>
   int (feline_fixes_depth typed source limit)
     \<le> max 0 (limit + int (max (length typed) (length source))) \<and>
   int (minimum_mewtations_depth start goal limit)
     \<le> max 0 (limit + int (max (length start) (length goal)))"
proof -
  have 1: "\<forall>(b, t', s', l') \<in> set (feline_fixes_calls typed source limit).
      (b = Cost \<longrightarrow> l' = limit - 1 \<and> l' < limit) \<and> (b = Free \<longrightarrow> l' = limit)"
    using ff_calls_limit [of _ _ _ _ typed source limit] by fastforce
  have 2: "\<forall>(b, s', g', l') \<in> set (minimum_mewtations_calls start goal limit).
      (b = Cost \<longrightarrow> l' = limit - 1 \<and> l' < limit) \<and> (b = Free \<longrightarrow> l' = limit)"
    using mm_calls_limit [of _ _ _ _ start goal limit] by fastforce
  have 3: "int (feline_fixes_depth typed source limit)
     \<le> max 0 (limit + int (max (length typed) (length source)))"
  proof (cases "limit < 0")
    case True
    then show ?thesis by (simp add: ffd_neg)
  next
    case False
    then have "0 \<le> limit" by simp
    from ffd_bound [OF this, of typed source] show ?thesis by simp
  qed
  have 4: "int (minimum_mewtations_depth start goal limit)
     \<le> max 0 (limit + int (max (length start) (length goal)))"
  proof (cases "limit < 0")
    case True
    then show ?thesis by (simp add: mmd_neg)
  next
    case False
    then have "0 \<le> limit" by simp
    from mmd_bound [OF this, of start goal] show ?thesis by simp
  qed
  from 1 2 3 4 show ?thesis
    by (simp only: ff_fuel_depth mm_fuel_depth simp_thms)
qed

theorem recursion_terminates_with_bounded_depth_witness:
  "feline_fixes_calls ''ab'' ''ad'' 1 = [(Free, ''b'', ''d'', 1)] \<and>
   feline_fixes_calls ''b'' ''d'' 1 = [(Cost, [], [], 0)] \<and>
   minimum_mewtations_calls ''ab'' ''cd'' 1 =
     [(Cost, ''ab'', ''d'', 0), (Cost, ''b'', ''cd'', 0), (Cost, ''b'', ''d'', 0)] \<and>
   feline_fixes_depth ''ab'' ''ad'' 1 = 2 \<and>
   minimum_mewtations_depth ''ab'' ''cd'' 1 = 2 \<and>
   feline_fixes_fuel 3 ''ab'' ''ad'' 1 = Some (feline_fixes ''ab'' ''ad'' 1) \<and>
   minimum_mewtations_fuel 3 ''ab'' ''cd'' 1 = Some (minimum_mewtations ''ab'' ''cd'' 1) \<and>
   minimum_mewtations_fuel 2 ''ab'' ''cd'' 1 = None \<and>
   int (minimum_mewtations_depth ''ab'' ''cd'' 1) \<le> max 0 (1 + int (max (length ''ab'') (length ''cd'')))"
proof -
  have c1: "feline_fixes_calls ''ab'' ''ad'' 1 = [(Free, ''b'', ''d'', 1)]" by code_simp
  have c2: "feline_fixes_calls ''b'' ''d'' 1 = [(Cost, [], [], 0)]" by code_simp
  have c3: "minimum_mewtations_calls ''ab'' ''cd'' 1 =
     [(Cost, ''ab'', ''d'', 0), (Cost, ''b'', ''cd'', 0), (Cost, ''b'', ''d'', 0)]" by code_simp
  have d1: "feline_fixes_depth ''ab'' ''ad'' 1 = 2" by code_simp
  have d2: "minimum_mewtations_depth ''ab'' ''cd'' 1 = 2" by code_simp
  from recursion_terminates_with_bounded_depth [of 3 "''ab''" "''ad''" 1 "''ab''" "''cd''"]
    recursion_terminates_with_bounded_depth [of 2 "''ab''" "''ad''" 1 "''ab''" "''cd''"]
    c1 c2 c3 d1 d2
  show ?thesis by simp
qed


section \<open>Autocorrect\<close>

lemma loop_arg_min:
  assumes "\<forall>c\<in>set ws. f tw c l = Fin (g c)"
  shows "smallest_diff_loop f l tw ws (Fin m, w0) =
     (if ws = [] \<or> m \<le> g (arg_min_list g ws) then (Fin m, w0)
      else (Fin (g (arg_min_list g ws)), arg_min_list g ws))"
  using assms
proof (induction ws arbitrary: m w0)
  case Nil
  show ?case by simp
next
  case (Cons w rest)
  then have w: "f tw w l = Fin (g w)" and rest: "\<forall>c\<in>set rest. f tw c l = Fin (g c)"
    by simp_all
  show ?case
  proof (cases rest)
    case Nil
    then show ?thesis by (auto simp: Let_def w)
  next
    case (Cons r rs)
    then have ne: "rest \<noteq> []" by simp
    have am: "arg_min_list g (w # rest) =
        (let m = arg_min_list g rest in if g w \<le> g m then w else m)"
      using Cons by simp
    show ?thesis
      unfolding am using ne Cons.IH [OF rest] by (auto simp: Let_def w)
  qed
qed

lemma loop_from_infinity:
  assumes "ws \<noteq> []" and "\<forall>c\<in>set ws. f tw c l = Fin (g c)"
  shows "smallest_diff_loop f l tw ws (PosInf, w0) =
     (Fin (g (arg_min_list g ws)), arg_min_list g ws)"
proof (cases ws)
  case Nil
  with assms(1) show ?thesis by simp
next
  case (Cons w rest)
  with assms(2) have w: "f tw w l = Fin (g w)"
    and rest: "\<forall>c\<in>set rest. f tw c l = Fin (g c)"
    by simp_all
  have "smallest_diff_loop f l tw (w # rest) (PosInf, w0) =
      smallest_diff_loop f l tw rest (Fin (g w), w)"
    by (simp add: Let_def w)
  also have "\<dots> =
      (if rest = [] \<or> g w \<le> g (arg_min_list g rest) then (Fin (g w), w)
       else (Fin (g (arg_min_list g rest)), arg_min_list g rest))"
    by (rule loop_arg_min [of rest f tw l g, OF rest])
  also have "\<dots> = (Fin (g (arg_min_list g (w # rest))), arg_min_list g (w # rest))"
    by (cases rest) (simp_all add: Let_def)
  finally show ?thesis unfolding Cons .
qed

lemma find_first_min:
  "ws \<noteq> [] \<Longrightarrow> find (\<lambda>w. g w = Min (g ` set ws)) ws = Some (arg_min_list g ws)"
  for g :: "'a \<Rightarrow> 'b::linorder"
proof (induction ws)
  case Nil
  then show ?case by simp
next
  case (Cons x rest)
  show ?case
  proof (cases rest)
    case Nil
    then show ?thesis by simp
  next
    case c2: (Cons y zs)
    then have ne: "rest \<noteq> []" by simp
    define M where "M = Min (g ` set rest)"
    define M' where "M' = Min (g ` set (x # rest))"
    have fm: "g (arg_min_list g rest) = M"
      unfolding M_def using ne by (rule f_arg_min_list_f)
    have M': "M' = min (g x) M"
      unfolding M'_def M_def using ne by simp
    have am: "arg_min_list g (x # rest) = (if g x \<le> M then x else arg_min_list g rest)"
      using c2 fm by (simp add: Let_def)
    have IH: "find (\<lambda>w. g w = M) rest = Some (arg_min_list g rest)"
      unfolding M_def using Cons.IH ne by simp
    have "find (\<lambda>w. g w = M') (x # rest) = Some (arg_min_list g (x # rest))"
    proof (cases "g x \<le> M")
      case True
      then have "M' = g x" using M' by (simp add: min_def)
      then show ?thesis using True am by simp
    next
      case False
      then have "M' = M" "g x \<noteq> M" using M' by (simp_all add: min_def)
      then show ?thesis using False am IH by simp
    qed
    then show ?thesis unfolding M'_def .
  qed
qed

text \<open>
  C4, as stated, fails for a difference function that returns \<^verbatim>\<open>math.inf\<close>: no
  difference is below the starting value \<^verbatim>\<open>math.inf\<close> of the running minimum, so no
  candidate is ever selected. With the limit \<^verbatim>\<open>math.inf\<close> the minimum does not exceed
  the limit, and the result is the placeholder \<^verbatim>\<open>""\<close> instead of the first minimising
  candidate.
\<close>

theorem autocorrect_infinite_diff_counterexample:
  "''cat'' \<notin> set [''dog''] \<and>
   \<not> num_less PosInf (inf_diff ''cat'' ''dog'' PosInf) \<and>
   autocorrect ''cat'' [''dog''] inf_diff PosInf = [] \<and>
   autocorrect ''cat'' [''dog''] inf_diff PosInf \<noteq> ''dog''"
  by (simp add: autocorrect_def compute_smallest_diff_and_return_word_def inf_diff_def)

text \<open>
  C4, amended. A typed word that is in the word list is returned unchanged, whatever the
  difference function and the limit. Otherwise, for a word list that is not empty and a
  difference function whose values on the candidates are finite numbers (\<open>diff\<close> names
  them), the first candidate in scan order whose difference is the minimum is the best
  one, and the result is the typed word when that minimum exceeds the limit and the best
  candidate otherwise. The limit is any number.
\<close>

theorem autocorrect_first_minimum:
  "(typed_word \<in> set word_list \<longrightarrow>
      autocorrect typed_word word_list diff_function limit = typed_word) \<and>
   (typed_word \<notin> set word_list \<and> word_list \<noteq> [] \<and>
    (\<forall>candidate\<in>set word_list. diff_function typed_word candidate limit = Fin (diff candidate)) \<longrightarrow>
      (\<exists>best.
         find (\<lambda>candidate. diff candidate = Min (diff ` set word_list)) word_list = Some best \<and>
         autocorrect typed_word word_list diff_function limit =
           (if num_less limit (Fin (Min (diff ` set word_list))) then typed_word else best)))"
proof -
  { assume a: "typed_word \<notin> set word_list" "word_list \<noteq> []"
      "\<forall>candidate\<in>set word_list. diff_function typed_word candidate limit = Fin (diff candidate)"
    have f: "find (\<lambda>c. diff c = Min (diff ` set word_list)) word_list =
        Some (arg_min_list diff word_list)"
      using a(2) by (rule find_first_min)
    have m: "diff (arg_min_list diff word_list) = Min (diff ` set word_list)"
      using a(2) by (rule f_arg_min_list_f)
    have "autocorrect typed_word word_list diff_function limit =
           (if num_less limit (Fin (Min (diff ` set word_list))) then typed_word
            else arg_min_list diff word_list)"
      using a(1) m
      by (simp add: autocorrect_def compute_smallest_diff_and_return_word_def
          loop_from_infinity [of word_list diff_function typed_word limit diff, OF a(2) a(3)])
    with f have "\<exists>best. find (\<lambda>c. diff c = Min (diff ` set word_list)) word_list = Some best \<and>
         autocorrect typed_word word_list diff_function limit =
           (if num_less limit (Fin (Min (diff ` set word_list))) then typed_word else best)"
      by blast }
  then show ?thesis by (auto simp: autocorrect_def)
qed

theorem autocorrect_first_minimum_witness:
  "''hwllo'' \<notin> set [''butter'', ''hello'', ''potato''] \<and>
   autocorrect ''hwllo'' [''butter'', ''hello'', ''potato''] (\<lambda>w1 w2 limit. Fin 10) (Fin 20)
     = ''butter'' \<and>
   autocorrect ''hwllo'' [''butter'', ''hello'', ''potato''] (\<lambda>w1 w2 limit. Fin 10) (Fin 5)
     = ''hwllo'' \<and>
   autocorrect ''tosting'' [''testing'', ''asking'', ''fasting'']
       (\<lambda>w1 w2 limit. Fin (if hd w1 \<noteq> hd w2 then 1 else 0)) (Fin 10)
     = ''testing'' \<and>
   autocorrect ''hello'' [''butter'', ''hello'', ''potato''] (\<lambda>w1 w2 limit. PosInf) NaN
     = ''hello''"
  using
    autocorrect_first_minimum [of "''hwllo''" "[''butter'', ''hello'', ''potato'']"
      "\<lambda>w1 w2 limit. Fin 10" "Fin 20" "\<lambda>c. 10"]
    autocorrect_first_minimum [of "''hwllo''" "[''butter'', ''hello'', ''potato'']"
      "\<lambda>w1 w2 limit. Fin 10" "Fin 5" "\<lambda>c. 10"]
    autocorrect_first_minimum [of "''tosting''" "[''testing'', ''asking'', ''fasting'']"
      "\<lambda>w1 w2 limit. Fin (if hd w1 \<noteq> hd w2 then 1 else 0)" "Fin 10"
      "\<lambda>c. if hd ''tosting'' \<noteq> hd c then 1 else 0"]
    autocorrect_first_minimum [of "''hello''" "[''butter'', ''hello'', ''potato'']"
      "\<lambda>w1 w2 limit. PosInf" NaN "\<lambda>c. 0"]
  by simp

text \<open>
  C10. On an empty word list the loop leaves the running minimum at infinity and the
  placeholder word empty; infinity exceeds every finite limit, so the typed word is
  returned, whatever the difference function.
\<close>

theorem autocorrect_empty_word_list:
  "autocorrect typed_word [] diff_function (Fin limit) = typed_word \<and>
   compute_smallest_diff_and_return_word diff_function (Fin limit) typed_word [] = ([], PosInf)"
  by (simp add: autocorrect_def compute_smallest_diff_and_return_word_def)

section \<open>Scoring\<close>

lemma mistyped_fold:
  "fold (\<lambda>i c. if xs ! i \<noteq> ys ! i then c + 1 else c) [0 ..< n] (c0::int) =
     c0 + int (card {i. i < n \<and> xs ! i \<noteq> ys ! i})"
proof (induction n)
  case 0
  show ?case by simp
next
  case (Suc n)
  have S: "{i. i < Suc n \<and> xs ! i \<noteq> ys ! i} =
      (if xs ! n \<noteq> ys ! n then insert n {i. i < n \<and> xs ! i \<noteq> ys ! i}
       else {i. i < n \<and> xs ! i \<noteq> ys ! i})"
    by (auto simp: less_Suc_eq)
  show ?case unfolding S using Suc by simp
qed

lemma compute_mistyped_words_eq:
  "compute_mistyped_words typed_words source_words = int (mismatches typed_words source_words)"
  by (simp add: compute_mistyped_words_def mismatches_def mistyped_fold)

text \<open>
  C5. \<^const>\<open>accuracy\<close> splits both strings on whitespace and returns 100 when both word
  lists are empty, 0 when exactly one is empty, and otherwise
  \<open>(1 - (mismatches + extras) / len(typed_words)) * 100\<close>, where \<open>mismatches\<close> counts the
  positions below the shorter length at which the words differ as strings and \<open>extras\<close>
  is \<open>max(0, len(typed_words) - len(source_words))\<close>. Words are compared with case and
  punctuation (the first two examples of the docstring), and a typed text shorter than
  the source is not penalised (the third).
\<close>

theorem accuracy_formula:
  "accuracy typed source =
     (let typed_words = split_str typed; source_words = split_str source
      in if typed_words = [] \<and> source_words = [] then Inr 100
         else if typed_words = [] \<or> source_words = [] then Inr 0
         else Inr ((1 - real_of_int (int (mismatches typed_words source_words)
                          + max 0 (int (length typed_words) - int (length source_words)))
                        / real (length typed_words)) * 100)) \<and>
   accuracy ''Cute Dog!'' ''Cute Dog.'' = Inr 50 \<and>
   accuracy ''cute Dog.'' ''Cute Dog.'' = Inr 50 \<and>
   accuracy ''Cute'' ''Cute Dog.'' = Inr 100"
proof -
  have ev: "accuracy ''Cute Dog!'' ''Cute Dog.'' = Inr 50"
    "accuracy ''cute Dog.'' ''Cute Dog.'' = Inr 50"
    "accuracy ''Cute'' ''Cute Dog.'' = Inr 100"
    by (simp_all add: accuracy_def split_str_def is_whitespace_def compute_mistyped_words_def
        compute_extra_typed_words_def compute_accuracy_def Let_def upt_conv_Cons)
  show ?thesis
    unfolding ev
    by (simp add: accuracy_def Let_def compute_accuracy_def compute_extra_typed_words_def
        compute_mistyped_words_eq max_def)
qed


text \<open>
  C7, as stated, fails for \<^verbatim>\<open>elapsed = float('nan')\<close>: the assertion
  \<^verbatim>\<open>elapsed > 0\<close> fails although \<^verbatim>\<open>elapsed <= 0\<close> is false.
\<close>

theorem wpm_nan_counterexample:
  "wpm ''hello friend hello buddy hello'' NaN = Inl AssertionError \<and>
   \<not> num_le NaN (Fin 0)"
  by (simp add: wpm_def num_le_def)

text \<open>
  C7, amended. \<^const>\<open>wpm\<close> fails, with the assertion's error, exactly when
  \<^verbatim>\<open>elapsed > 0\<close> is false, that is, when \<^verbatim>\<open>elapsed <= 0\<close> or \<open>elapsed\<close> is \<^verbatim>\<open>nan\<close>. For
  every \<open>elapsed > 0\<close> it returns \<open>(len(typed) / 5) * (60 / elapsed)\<close>, where
  \<open>len(typed)\<close> counts every character of the typed string, spaces too; for
  \<^verbatim>\<open>elapsed = math.inf\<close> that value is 0.
\<close>

theorem wpm_fails_iff_not_positive:
  "((\<exists>e. wpm typed elapsed = Inl e) \<longleftrightarrow> \<not> num_less (Fin 0) elapsed) \<and>
   (\<not> num_less (Fin 0) elapsed \<longleftrightarrow> num_le elapsed (Fin 0) \<or> elapsed = NaN) \<and>
   (\<not> num_less (Fin 0) elapsed \<longrightarrow> wpm typed elapsed = Inl AssertionError) \<and>
   (0 < x \<longrightarrow> wpm typed (Fin x) = Inr (Fin ((real (length typed) / 5) * (60 / x)))) \<and>
   wpm typed PosInf = Inr (Fin 0)"
proof -
  have 1: "(\<exists>e. wpm typed elapsed = Inl e) \<longleftrightarrow> \<not> num_less (Fin 0) elapsed"
    by (cases elapsed) (auto simp: wpm_def)
  have 2: "\<not> num_less (Fin 0) elapsed \<longleftrightarrow> num_le elapsed (Fin 0) \<or> elapsed = NaN"
    by (cases elapsed) (auto simp: num_le_def)
  have 3: "\<not> num_less (Fin 0) elapsed \<longrightarrow> wpm typed elapsed = Inl AssertionError"
    by (simp add: wpm_def)
  have 4: "0 < x \<longrightarrow> wpm typed (Fin x) = Inr (Fin ((real (length typed) / 5) * (60 / x)))"
    by (simp add: wpm_def)
  have 5: "wpm typed PosInf = Inr (Fin 0)"
    by (simp add: wpm_def)
  from 1 2 3 4 5 show ?thesis by blast
qed

theorem wpm_fails_iff_not_positive_witness:
  "(0::real) < 15 \<and> wpm ''hello friend hello buddy hello'' (Fin 15) = Inr (Fin 24) \<and>
   num_le (Fin 0) (Fin 0) \<and> wpm ''hello friend hello buddy hello'' (Fin 0) = Inl AssertionError \<and>
   wpm ''hello friend hello buddy hello'' (Fin (- 3)) = Inl AssertionError \<and>
   wpm ''hello friend hello buddy hello'' NegInf = Inl AssertionError \<and>
   wpm ''hello friend hello buddy hello'' NaN = Inl AssertionError"
  using wpm_fails_iff_not_positive [of "''hello friend hello buddy hello''" "Fin 15" 15]
    wpm_fails_iff_not_positive [of "''hello friend hello buddy hello''" "Fin 0" 15]
    wpm_fails_iff_not_positive [of "''hello friend hello buddy hello''" "Fin (- 3)" 15]
    wpm_fails_iff_not_positive [of "''hello friend hello buddy hello''" NegInf 15]
    wpm_fails_iff_not_positive [of "''hello friend hello buddy hello''" NaN 15]
  by (simp add: num_le_def)

section \<open>Progress reports\<close>

lemma loop_scan:
  "correct_words_loop prompt typed i c = leading_scan (drop i typed) (drop i prompt) c"
proof (induction prompt typed i c rule: correct_words_loop.induct)
  case (1 prompt typed i c)
  show ?case
  proof (cases "i < length typed")
    case False
    then show ?thesis by (subst correct_words_loop.simps) simp
  next
    case True
    then have dt: "drop i typed = typed ! i # drop (Suc i) typed"
      by (simp add: Cons_nth_drop_Suc)
    show ?thesis
    proof (cases "i < length prompt")
      case False
      then show ?thesis using True dt by (subst correct_words_loop.simps) simp
    next
      case ip: True
      then have dp: "drop i prompt = prompt ! i # drop (Suc i) prompt"
        by (simp add: Cons_nth_drop_Suc)
      show ?thesis
      proof (cases "typed ! i = prompt ! i")
        case False
        then show ?thesis using True ip dt dp by (subst correct_words_loop.simps) simp
      next
        case eq: True
        from 1 [OF True _ eq] ip
        have "correct_words_loop prompt typed (i + 1) (c + 1) =
            leading_scan (drop (i + 1) typed) (drop (i + 1) prompt) (c + 1)" by simp
        then show ?thesis using True ip eq dt dp by (subst correct_words_loop.simps) simp
      qed
    qed
  qed
qed

lemma leading_scan_char:
  "leading_scan typed prompt c =
     (if length prompt < length typed \<and> take (length prompt) typed = prompt then Inl IndexError
      else Inr (c + int (leading_matches typed prompt)))"
  by (induction typed prompt arbitrary: c rule: list_induct2')
    (auto simp: leading_matches_def)

lemma leading_matches_le: "leading_matches typed prompt \<le> length prompt"
proof -
  have "leading_matches typed prompt \<le> length (zip typed prompt)"
    unfolding leading_matches_def by (rule length_takeWhile_le)
  then show ?thesis by simp
qed

text \<open>
  C9. \<^const>\<open>report_progress\<close> fails with \<^verbatim>\<open>IndexError\<close> exactly when \<open>typed\<close> is longer
  than \<open>prompt\<close> and its first \<open>len(prompt)\<close> words are the words of \<open>prompt\<close>. When
  \<open>typed\<close> is no longer than a \<open>prompt\<close> that is not empty, the call succeeds, returns
  the number of leading matches divided by \<open>len(prompt)\<close>, and has uploaded the report
  with that ratio.
\<close>

theorem report_progress_index_error_iff:
  "(report_progress typed prompt user_id upload world = Inl IndexError \<longleftrightarrow>
      length prompt < length typed \<and> take (length prompt) typed = prompt) \<and>
   (length typed \<le> length prompt \<and> prompt \<noteq> [] \<longrightarrow>
      report_progress typed prompt user_id upload world =
        Inr (real (leading_matches typed prompt) / real (length prompt),
             upload \<lparr>report_id = user_id,
                     progress = real (leading_matches typed prompt) / real (length prompt)\<rparr> world))"
  by (auto simp: report_progress_def compute_progress_ratio_def
      compute_correct_words_till_mistype_def get_progress_ratio_def loop_scan leading_scan_char)


theorem report_progress_index_error_iff_witness:
  "length [''how'', ''are'', ''you''] \<le> length [''how'', ''are'', ''you'', ''doing'', ''today''] \<and>
   report_progress [''how'', ''are'', ''you''] [''how'', ''are'', ''you'', ''doing'', ''today''] 2
       (\<lambda>r w. w @ [r]) []
     = Inr (3 / 5, [\<lparr>report_id = 2, progress = 3 / 5\<rparr>]) \<and>
   report_progress [''how'', ''aree''] [''how'', ''are'', ''you'', ''doing'', ''today''] 3
       (\<lambda>r w. w @ [r]) []
     = Inr (1 / 5, [\<lparr>report_id = 3, progress = 1 / 5\<rparr>]) \<and>
   length [''how''] < length [''how'', ''are''] \<and>
   report_progress [''how'', ''are''] [''how''] 4 (\<lambda>r w. w @ [r]) ([]::report list)
     = Inl IndexError"
  using
    report_progress_index_error_iff [of "[''how'', ''are'', ''you'']"
      "[''how'', ''are'', ''you'', ''doing'', ''today'']" 2 "\<lambda>r w. w @ [r]" "[]"]
    report_progress_index_error_iff [of "[''how'', ''aree'']"
      "[''how'', ''are'', ''you'', ''doing'', ''today'']" 3 "\<lambda>r w. w @ [r]" "[]"]
    report_progress_index_error_iff [of "[''how'', ''are'']" "[''how'']" 4 "\<lambda>r w. w @ [r]"
      "[]::report list"]
  by (simp add: leading_matches_def)

section \<open>Fastest words\<close>

lemma strs_at_append: "strs_at h a = Inr x \<Longrightarrow> strs_at (h @ X) a = Inr x"
  by (auto simp: strs_at_def nth_append split: if_splits)

lemma nums_at_append: "nums_at h a = Inr x \<Longrightarrow> nums_at (h @ X) a = Inr x"
  by (auto simp: nums_at_def nth_append split: if_splits)

lemma refs_at_append: "refs_at h a = Inr x \<Longrightarrow> refs_at (h @ X) a = Inr x"
  by (auto simp: refs_at_def nth_append split: if_splits)

lemma wf_matchD:
  assumes "wf_match h m ws (map (map Fin) tss)"
  shows "\<exists>rs. strs_at h (words_ref m) = Inr ws \<and> refs_at h (times_ref m) = Inr rs \<and>
    length rs = length tss \<and>
    (\<forall>p<length tss. nums_at h (rs ! p) = Inr (map Fin (tss ! p)) \<and> length (tss ! p) = length ws)"
proof -
  from assms obtain rs where rs: "refs_at h (times_ref m) = Inr rs"
    "map (nums_at h) rs = map Inr (map (map Fin) tss)"
    by (auto simp: wf_match_def split: sum.splits)
  from rs(2) have len: "length rs = length tss"
    by (metis length_map)
  have nth: "nums_at h (rs ! p) = Inr (map Fin (tss ! p))" if "p < length tss" for p
  proof -
    have "map (nums_at h) rs ! p = map Inr (map (map Fin) tss) ! p" using rs(2) by simp
    then show ?thesis using that len by simp
  qed
  have lens: "length (tss ! p) = length ws" if "p < length tss" for p
    using assms that by (simp add: wf_match_def list_all_length)
  from assms have "strs_at h (words_ref m) = Inr ws" by (simp add: wf_match_def)
  with rs(1) len nth lens show ?thesis by blast
qed

lemma time_ext:
  assumes "wf_match h m ws (map (map Fin) tss)" "p < length tss" "j < length ws"
  shows "time (h @ X) m p j = Inr (Fin (tss ! p ! j))"
proof -
  from wf_matchD [OF assms(1)] assms(2)
  obtain rs where w: "strs_at h (words_ref m) = Inr ws"
    and r: "refs_at h (times_ref m) = Inr rs" and len: "length rs = length tss"
    and n: "nums_at h (rs ! p) = Inr (map Fin (tss ! p))"
    and l: "length (tss ! p) = length ws"
    by blast
  show ?thesis
    using assms(2,3) len l
    by (simp add: time_def strs_at_append [OF w] refs_at_append [OF r]
        nums_at_append [OF n])
qed

lemma get_word_ext:
  assumes "wf_match h m ws (map (map Fin) tss)" "j < length ws"
  shows "get_word (h @ X) m j = Inr (ws ! j)"
proof -
  from assms(1) have w: "strs_at h (words_ref m) = Inr ws" by (simp add: wf_match_def)
  show ?thesis using assms(2) by (simp add: get_word_def strs_at_append [OF w])
qed

lemma player_loop_arg_min:
  assumes wf: "wf_match h m ws (map (map Fin) tss)" and j: "j < length ws"
  shows "set ps \<subseteq> {..< length tss} \<Longrightarrow>
    fastest_player_loop (h @ X) m j ps (Fin mt, pl, w) =
      Inr (if ps = [] \<or> mt \<le> tss ! (arg_min_list (\<lambda>p. tss ! p ! j) ps) ! j then (Fin mt, pl, w)
           else (Fin (tss ! (arg_min_list (\<lambda>p. tss ! p ! j) ps) ! j),
                 arg_min_list (\<lambda>p. tss ! p ! j) ps, ws ! j))"
proof (induction ps arbitrary: mt pl w)
  case Nil
  show ?case by simp
next
  case (Cons p rest)
  then have p: "p < length tss" and rest: "set rest \<subseteq> {..< length tss}" by auto
  note t = time_ext [OF wf p j, of X]
  note g = get_word_ext [OF wf j, of X]
  show ?case
  proof (cases rest)
    case Nil
    then show ?thesis by (auto simp: t g)
  next
    case c2: (Cons r rs)
    have am: "arg_min_list (\<lambda>p. tss ! p ! j) (p # rest) =
        (let m = arg_min_list (\<lambda>p. tss ! p ! j) rest in
           if tss ! p ! j \<le> tss ! m ! j then p else m)"
      using c2 by simp
    show ?thesis
      unfolding am using c2 Cons.IH [OF rest] by (auto simp: Let_def t g)
  qed
qed

lemma player_loop_from_infinity:
  assumes wf: "wf_match h m ws (map (map Fin) tss)" and j: "j < length ws"
    and ps: "set ps \<subseteq> {..< length tss}" "ps \<noteq> []"
  shows "fastest_player_loop (h @ X) m j ps (PosInf, pl, w) =
      Inr (Fin (tss ! (arg_min_list (\<lambda>p. tss ! p ! j) ps) ! j),
           arg_min_list (\<lambda>p. tss ! p ! j) ps, ws ! j)"
proof (cases ps)
  case Nil
  with ps show ?thesis by simp
next
  case (Cons p rest)
  with ps have p: "p < length tss" and rest: "set rest \<subseteq> {..< length tss}" by auto
  note t = time_ext [OF wf p j, of X]
  note g = get_word_ext [OF wf j, of X]
  show ?thesis
  proof (cases rest)
    case Nil
    with Cons show ?thesis by (simp add: t g)
  next
    case c2: (Cons r rs)
    have am: "arg_min_list (\<lambda>p. tss ! p ! j) (p # rest) =
        (let m = arg_min_list (\<lambda>p. tss ! p ! j) rest in
           if tss ! p ! j \<le> tss ! m ! j then p else m)"
      using c2 by simp
    show ?thesis
      unfolding Cons am using c2 player_loop_arg_min [OF wf j rest, of X]
      by (auto simp: Let_def t g)
  qed
qed

lemma is_fastest_arg_min:
  assumes n: "0 < length tss"
  shows "is_fastest tss j p \<longleftrightarrow> p = arg_min_list (\<lambda>p. tss ! p ! j) [0 ..< length tss]"
proof -
  let ?g = "\<lambda>p. tss ! p ! j"
  let ?n = "length tss"
  let ?am = "arg_min_list ?g [0 ..< ?n]"
  let ?M = "Min (?g ` set [0 ..< ?n])"
  have ne: "[0 ..< ?n] \<noteq> []" using n by simp
  have "find (\<lambda>w. ?g w = ?M) [0 ..< ?n] = Some ?am"
    using ne by (rule find_first_min)
  then obtain i where i: "i < ?n" "?g i = ?M" "?am = i" "\<forall>q<i. ?g q \<noteq> ?M"
    unfolding find_Some_iff by auto
  have Mle: "?M \<le> ?g q" if "q < ?n" for q
    using that by (intro Min_le) auto
  have before: "?M < ?g q" if "q < i" for q
  proof -
    from that i(1) have "q < ?n" by simp
    then have "?M \<le> ?g q" by (rule Mle)
    moreover from i(4) that have "?M \<noteq> ?g q" by fastforce
    ultimately show ?thesis by (rule le_neq_trans)
  qed
  have fst: "is_fastest tss j i"
    using i(1,2) Mle before by (simp add: is_fastest_def list_all_iff)
  have "p = i" if f: "is_fastest tss j p"
  proof (rule ccontr)
    assume "p \<noteq> i"
    then consider "p < i" | "i < p" by linarith
    then show False
    proof cases
      case 1
      from f have "?g p \<le> ?g i" using i(1) by (simp add: is_fastest_def list_all_iff)
      with before [OF 1] i(2) show False by simp
    next
      case 2
      from f 2 have a: "?g p < ?g i" by (simp add: is_fastest_def list_all_iff)
      from f have "p < ?n" by (simp add: is_fastest_def)
      then have b: "?M \<le> ?g p" by (rule Mle)
      from a b i(2) show False by (metis leD)
    qed
  qed
  with fst i(3) show ?thesis by auto
qed


lemma shape_refs: "refs_at (shape h n ls) (length h) = Inr [length h + 1 ..< length h + 1 + n]"
  by (simp add: shape_def refs_at_def nth_append)

lemma shape_strs:
  "p < length ls \<Longrightarrow> strs_at (shape h n ls) (length h + 1 + p) = Inr (ls ! p)"
  by (simp add: shape_def strs_at_def nth_append)

lemma shape_update:
  "p < length ls \<Longrightarrow>
     (shape h n ls)[length h + 1 + p := StrList v] = shape h n (ls[p := v])"
  by (simp add: shape_def list_update_append map_update)

lemma compute_on:
  assumes "fastest_player_loop H m j [0 ..< n] (PosInf, 0, []) = Inr (mt, pl, w)"
    and "refs_at H fw = Inr rs" and "pl < length rs" and "strs_at H (rs ! pl) = Inr old"
  shows "compute_fastest_words_for_each_player H fw m n j =
           Inr (H[rs ! pl := StrList (old @ [w])])"
  using assms by (simp add: compute_fastest_words_for_each_player_def)

lemma step_shape:
  assumes wf: "wf_match h m ws (map (map Fin) tss)" and j: "j < length ws"
    and n: "0 < length tss"
    and ls: "length ls = length tss"
  shows "compute_fastest_words_for_each_player (shape h (length tss) ls) (length h) m
           (length tss) j =
         Inr (shape h (length tss)
               (map (\<lambda>p. ls ! p @ (if is_fastest tss j p then [ws ! j] else []))
                  [0 ..< length tss]))"
proof -
  let ?n = "length tss"
  let ?fp = "arg_min_list (\<lambda>p. tss ! p ! j) [0 ..< ?n]"
  let ?rs = "[length h + 1 ..< length h + 1 + ?n]"
  have "?fp \<in> set [0 ..< ?n]"
    by (rule arg_min_list_in) (use n in simp)
  then have fpn: "?fp < ?n" by simp
  have loop: "fastest_player_loop (shape h ?n ls) m j [0 ..< ?n] (PosInf, 0, []) =
      Inr (Fin (tss ! ?fp ! j), ?fp, ws ! j)"
    unfolding shape_def using n
    by (intro player_loop_from_infinity [OF wf j]) auto
  have len: "?fp < length ?rs" using fpn by simp
  have nth: "?rs ! ?fp = length h + 1 + ?fp" using fpn by (simp only: nth_upt)
  have old: "strs_at (shape h ?n ls) (?rs ! ?fp) = Inr (ls ! ?fp)"
    unfolding nth using fpn ls by (intro shape_strs) simp
  have upd: "ls[?fp := ls ! ?fp @ [ws ! j]] =
      map (\<lambda>p. ls ! p @ (if is_fastest tss j p then [ws ! j] else [])) [0 ..< ?n]"
    by (rule nth_equalityI) (auto simp: ls is_fastest_arg_min [OF n] nth_list_update)
  have "compute_fastest_words_for_each_player (shape h ?n ls) (length h) m ?n j =
      Inr ((shape h ?n ls)[?rs ! ?fp := StrList (ls ! ?fp @ [ws ! j])])"
    using loop shape_refs len old by (rule compute_on)
  also have "(shape h ?n ls)[?rs ! ?fp := StrList (ls ! ?fp @ [ws ! j])] =
      shape h ?n (ls[?fp := ls ! ?fp @ [ws ! j]])"
    unfolding nth using fpn ls by (intro shape_update) simp
  finally show ?thesis unfolding upd .
qed

lemma word_loop_shape:
  assumes wf: "wf_match h m ws (map (map Fin) tss)" and n: "0 < length tss"
  shows "set js \<subseteq> {..< length ws} \<Longrightarrow> length ls = length tss \<Longrightarrow>
    word_loop (shape h (length tss) ls) (length h) m (length tss) js =
      Inr (shape h (length tss)
            (map (\<lambda>p. ls ! p @ map (\<lambda>j. ws ! j) (filter (\<lambda>j. is_fastest tss j p) js))
               [0 ..< length tss]))"
proof (induction js arbitrary: ls)
  case Nil
  from Nil(2) have "map ((!) ls) [0 ..< length tss] = ls" by (metis map_nth)
  then show ?case by simp
next
  case (Cons j js)
  then have j: "j < length ws" and js: "set js \<subseteq> {..< length ws}" by auto
  let ?ls1 = "map (\<lambda>p. ls ! p @ (if is_fastest tss j p then [ws ! j] else []))
                  [0 ..< length tss]"
  have len1: "length ?ls1 = length tss" by simp
  have eq: "map (\<lambda>p. ?ls1 ! p @ map (\<lambda>j. ws ! j) (filter (\<lambda>j. is_fastest tss j p) js))
               [0 ..< length tss] =
      map (\<lambda>p. ls ! p @ map (\<lambda>j. ws ! j) (filter (\<lambda>j. is_fastest tss j p) (j # js)))
               [0 ..< length tss]"
    by (rule nth_equalityI) auto
  have "word_loop (shape h (length tss) ls) (length h) m (length tss) (j # js) =
      word_loop (shape h (length tss) ?ls1) (length h) m (length tss) js"
    by (simp add: step_shape [OF wf j n Cons.prems(2)])
  also note Cons.IH [OF js len1]
  finally show ?case unfolding eq .
qed


lemma is_fastest_unique:
  assumes "tss \<noteq> []"
  shows "\<exists>!p. is_fastest tss j p"
  using assms by (simp add: is_fastest_arg_min)

lemma shape_strs_Suc:
  "p < length ls \<Longrightarrow> strs_at (shape h n ls) (Suc (length h + p)) = Inr (ls ! p)"
  using shape_strs [of p ls h n] by simp

lemma shape_read:
  "length ls = n \<Longrightarrow>
     map (strs_at (shape h n ls)) [length h + 1 ..< length h + 1 + n] =
       map (\<lambda>p. Inr (ls ! p)) [0 ..< n]"
  by (rule nth_equalityI) (simp_all add: shape_strs_Suc del: upt_Suc)

lemma shape_take: "take (length h) (shape h n ls) = h"
  by (simp add: shape_def)

lemma wf_match_append: "wf_match h m ws nss \<Longrightarrow> wf_match (h @ X) m ws nss"
proof -
  assume wf: "wf_match h m ws nss"
  then obtain rs where w: "strs_at h (words_ref m) = Inr ws"
    and r: "refs_at h (times_ref m) = Inr rs"
    and n: "map (nums_at h) rs = map Inr nss"
    and l: "list_all (\<lambda>ns. length ns = length ws) nss"
    by (auto simp: wf_match_def split: sum.splits)
  have "nums_at (h @ X) a = nums_at h a" if "a \<in> set rs" for a
  proof -
    from that have "nums_at h a \<in> set (map (nums_at h) rs)" by simp
    then have "nums_at h a \<in> set (map Inr nss)" by (simp only: n)
    then obtain ns where "nums_at h a = Inr ns" by auto
    then show ?thesis by (simp add: nums_at_append)
  qed
  then have "map (nums_at (h @ X)) rs = map (nums_at h) rs" by simp
  with n l show ?thesis
    by (simp add: wf_match_def strs_at_append [OF w] refs_at_append [OF r])
qed

text \<open>
  C6, as stated, fails on two kinds of well-formed match. With a word and no player, no
  list exists for the word to be appended to, and the call raises \<^verbatim>\<open>IndexError\<close>. With
  the time \<^verbatim>\<open>math.inf\<close> for a word (a \<^verbatim>\<open>float\<close>, which \<^verbatim>\<open>match\<close> accepts), no time is
  below the starting value \<^verbatim>\<open>math.inf\<close> of the running minimum, and the placeholder
  \<^verbatim>\<open>""\<close> is appended to the list of player 0 instead of the word.
\<close>

theorem fastest_words_no_player_counterexample:
  "wf_match [StrList [''Just''], RefList []] \<lparr>words_ref = 0, times_ref = 1\<rparr> [''Just''] [] \<and>
   fastest_words [StrList [''Just''], RefList []] \<lparr>words_ref = 0, times_ref = 1\<rparr>
     = Inl IndexError \<and>
   wf_match [StrList [''Just''], NumList [PosInf], RefList [1]] \<lparr>words_ref = 0, times_ref = 2\<rparr>
     [''Just''] [[PosInf]] \<and>
   fastest_words [StrList [''Just''], NumList [PosInf], RefList [1]]
       \<lparr>words_ref = 0, times_ref = 2\<rparr>
     = Inr ([StrList [''Just''], NumList [PosInf], RefList [1], RefList [4], StrList [[]]], 3)"
  by (simp add: wf_match_def fastest_words_def get_all_times_def get_all_words_def
      strs_at_def refs_at_def nums_at_def compute_fastest_words_for_each_player_def time_def)

text \<open>
  C6, amended. For every well-formed match whose times are finite numbers and that has
  at least one player, or no words, \<^const>\<open>fastest_words\<close> returns one list per player;
  each word of the prompt is in the list of exactly one player, the first among the
  players with the minimum time for that word; the words of each list are in the order
  of the prompt; and every object that was in the store before the call, each time list
  among them, is unchanged. The witness is the example of the docstring.
\<close>

theorem fastest_words_first_minimum:
  assumes wf: "wf_match h m ws (map (map Fin) tss)" and players: "tss \<noteq> [] \<or> ws = []"
  shows "\<exists>h' r rs.
      fastest_words h m = Inr (h', r) \<and>
      refs_at h' r = Inr rs \<and>
      map (strs_at h') rs = map (\<lambda>p. Inr (words_won ws tss p)) [0 ..< length tss] \<and>
      (\<forall>j<length ws. \<exists>!p. is_fastest tss j p) \<and>
      take (length h) h' = h \<and> wf_match h' m ws (map (map Fin) tss)"
proof -
  let ?n = "length tss"
  from wf_matchD [OF wf] obtain trs where w: "strs_at h (words_ref m) = Inr ws"
    and r: "refs_at h (times_ref m) = Inr trs" and len: "length trs = ?n"
    by blast
  let ?h1 = "h @ [RefList [length h + 1 ..< length h + 1 + ?n]] @ replicate ?n (StrList [])"
  have h1: "?h1 = shape h ?n (replicate ?n [])"
    by (simp add: shape_def)
  have fw: "fastest_words h m =
      (case word_loop ?h1 (length h) m ?n [0 ..< length ws] of
         Inl e \<Rightarrow> Inl e | Inr h2 \<Rightarrow> Inr (h2, length h))"
    by (simp add: fastest_words_def get_all_times_def get_all_words_def w r len Let_def)
  let ?res = "shape h ?n (map (words_won ws tss) [0 ..< ?n])"
  have loop: "word_loop ?h1 (length h) m ?n [0 ..< length ws] = Inr ?res"
  proof (cases "tss = []")
    case True
    with players have "ws = []" by simp
    with True show ?thesis by (simp add: shape_def)
  next
    case False
    then have n: "0 < ?n" by simp
    have eq: "map (\<lambda>p. replicate ?n [] ! p @
                 map (\<lambda>j. ws ! j) (filter (\<lambda>j. is_fastest tss j p) [0 ..< length ws]))
               [0 ..< ?n] = map (words_won ws tss) [0 ..< ?n]"
      by (rule nth_equalityI) (simp_all add: words_won_def)
    have "word_loop (shape h ?n (replicate ?n [])) (length h) m ?n [0 ..< length ws] =
        Inr (shape h ?n
              (map (\<lambda>p. replicate ?n [] ! p @
                 map (\<lambda>j. ws ! j) (filter (\<lambda>j. is_fastest tss j p) [0 ..< length ws]))
               [0 ..< ?n]))"
      by (rule word_loop_shape [OF wf n]) auto
    then show ?thesis unfolding h1 eq .
  qed
  have 1: "fastest_words h m = Inr (?res, length h)"
    unfolding fw loop by simp
  have 2: "refs_at ?res (length h) = Inr [length h + 1 ..< length h + 1 + ?n]"
    by (rule shape_refs)
  have 3: "map (strs_at ?res) [length h + 1 ..< length h + 1 + ?n] =
      map (\<lambda>p. Inr (words_won ws tss p)) [0 ..< ?n]"
  proof -
    have "map (strs_at ?res) [length h + 1 ..< length h + 1 + ?n] =
        map (\<lambda>p. Inr (map (words_won ws tss) [0 ..< ?n] ! p)) [0 ..< ?n]"
      by (rule shape_read) simp
    also have "\<dots> = map (\<lambda>p. Inr (words_won ws tss p)) [0 ..< ?n]"
      by (rule nth_equalityI) simp_all
    finally show ?thesis .
  qed
  have 4: "\<forall>j<length ws. \<exists>!p. is_fastest tss j p"
  proof (cases "tss = []")
    case True
    with players show ?thesis by simp
  next
    case False
    then show ?thesis by (simp add: is_fastest_unique)
  qed
  have 5: "take (length h) ?res = h" by (rule shape_take)
  have 6: "wf_match ?res m ws (map (map Fin) tss)"
    unfolding shape_def using wf by (rule wf_match_append)
  from 1 2 3 4 5 6 show ?thesis by blast
qed

theorem fastest_words_first_minimum_witness:
  "wf_match [StrList [''Just'', ''have'', ''fun''], NumList [Fin 5, Fin 1, Fin 3],
             NumList [Fin 4, Fin 1, Fin 6], RefList [1, 2]] \<lparr>words_ref = 0, times_ref = 3\<rparr>
     [''Just'', ''have'', ''fun''] (map (map Fin) [[5, 1, 3], [4, 1, 6]]) \<and>
   [[5, 1, 3], [4, 1, 6]] \<noteq> ([]::real list list) \<and>
   fastest_words [StrList [''Just'', ''have'', ''fun''], NumList [Fin 5, Fin 1, Fin 3],
             NumList [Fin 4, Fin 1, Fin 6], RefList [1, 2]] \<lparr>words_ref = 0, times_ref = 3\<rparr> =
     Inr ([StrList [''Just'', ''have'', ''fun''], NumList [Fin 5, Fin 1, Fin 3],
           NumList [Fin 4, Fin 1, Fin 6], RefList [1, 2], RefList [5, 6],
           StrList [''have'', ''fun''], StrList [''Just'']], 4) \<and>
   words_won [''Just'', ''have'', ''fun''] [[5, 1, 3], [4, 1, 6]] 0 = [''have'', ''fun''] \<and>
   words_won [''Just'', ''have'', ''fun''] [[5, 1, 3], [4, 1, 6]] 1 = [''Just'']"
proof -
  let ?h = "[StrList [''Just'', ''have'', ''fun''], NumList [Fin 5, Fin 1, Fin 3],
             NumList [Fin 4, Fin 1, Fin 6], RefList [1, 2]]"
  let ?m = "\<lparr>words_ref = 0, times_ref = 3\<rparr>"
  let ?ws = "[''Just'', ''have'', ''fun'']"
  let ?tss = "[[5, 1, 3], [4, 1, 6]] :: real list list"
  have wf: "wf_match ?h ?m ?ws (map (map Fin) ?tss)"
    by (simp add: wf_match_def strs_at_def refs_at_def nums_at_def)
  have ne: "?tss \<noteq> [] \<or> ?ws = []" by simp
  have ev: "fastest_words ?h ?m =
     Inr ([StrList [''Just'', ''have'', ''fun''], NumList [Fin 5, Fin 1, Fin 3],
           NumList [Fin 4, Fin 1, Fin 6], RefList [1, 2], RefList [5, 6],
           StrList [''have'', ''fun''], StrList [''Just'']], 4)"
    by (simp add: fastest_words_def get_all_times_def get_all_words_def strs_at_def refs_at_def
        nums_at_def compute_fastest_words_for_each_player_def time_def get_word_def
        upt_conv_Cons Let_def)
  from fastest_words_first_minimum [OF wf ne] obtain h' r rs where
    "fastest_words ?h ?m = Inr (h', r)" "refs_at h' r = Inr rs"
    "map (strs_at h') rs = map (\<lambda>p. Inr (words_won ?ws ?tss p)) [0 ..< length ?tss]"
    by blast
  with ev have "words_won ?ws ?tss 0 = [''have'', ''fun''] \<and> words_won ?ws ?tss 1 = [''Just'']"
    by (auto simp: refs_at_def strs_at_def upt_conv_Cons)
  with wf ev show ?thesis by simp
qed

end
